theory Spec2Isabelle
  imports Complex_Main "HOL-Library.AList" "HOL-Library.Multiset" "HOL-Library.Char_ord"
    "HOL-Library.List_Lexorder"
begin

section \<open>Data model (config/schemas.ts)\<close>

text \<open>
  The zod schemas of the repository become datatypes and records. Field names are the
  source's, except where two records share a name or a name is a constant of HOL
  (\<open>id\<close> of a task is \<open>task_id\<close>, \<open>id\<close> of a session is \<open>session_id\<close>).
  JavaScript strings are \<open>string\<close>; a field that may be \<open>undefined\<close> or \<open>null\<close> is an option.
\<close>

datatype TaskStatus = Pending | In_progress | Completed | Failed | Blocked

datatype Priority = P0 | P1 | P2 | P3

record Task =
  task_id :: string
  name :: string
  description :: "string option"
  status :: TaskStatus
  parallelGroup :: int
  dependencies :: "string list"
  files :: "string list"
  acceptanceCriteria :: "string list"
  estimate :: "string option"
  priority :: "Priority option"
  phase :: "string option"
  requirements :: "string list"
  businessRules :: "string list"
  testingRequirements :: "string list"
  skills :: "string list"

text \<open>
  Every \<open>throw new Error(...)\<close> of the modelled code is a constructor that carries the data
  the message is built from; \<open>error_message\<close> renders the message of the source.
  \<open>External\<close> is an exception raised by a collaborator outside the modelled code
  (worktree manager, prompt builder, engine, a shell command).
\<close>

datatype error =
    UnknownDependency string string
  | CircularDependency "string list"
  | UnschedulableTasks "string list"
  | SessionNotFound string
  | SchemaError string
  | ConstraintError string
  | HookFailed string string
  | ExecutionFailed string
  | CommandFailed string "int option"
  | CommandSpawnFailed string string
  | External string

fun showNat :: "nat \<Rightarrow> string" where
  "showNat n = (if n < 10 then [char_of (48 + n)] else showNat (n div 10) @ [char_of (48 + n mod 10)])"

definition showExitCode :: "int option \<Rightarrow> string" where
  "showExitCode code =
     (case code of
        None \<Rightarrow> ''null''
      | Some c \<Rightarrow> if c < 0 then ''-'' @ showNat (nat (- c)) else showNat (nat c))"

fun join :: "string \<Rightarrow> string list \<Rightarrow> string" where
  "join sep [] = []"
| "join sep [x] = x"
| "join sep (x # y # ys) = x @ sep @ join sep (y # ys)"

fun error_message :: "error \<Rightarrow> string" where
  "error_message (UnknownDependency t dep) = ''Task '' @ t @ '' depends on unknown task '' @ dep"
| "error_message (CircularDependency cycle) =
     ''Circular dependency detected: '' @ join '' -> '' cycle"
| "error_message (UnschedulableTasks remaining) =
     ''Could not schedule tasks: '' @ join '', '' remaining @ ''. '' @
     ''Check for circular dependencies or missing dependency tasks.''"
| "error_message (SessionNotFound sessionId) = ''Session '' @ sessionId @ '' not found''"
| "error_message (SchemaError msg) = msg"
| "error_message (ConstraintError msg) = msg"
| "error_message (HookFailed hook out) = hook @ '' hook failed: '' @ out"
| "error_message (ExecutionFailed msg) = msg"
| "error_message (CommandFailed cmd code) = cmd @ '' failed with exit code '' @ showExitCode code"
| "error_message (CommandSpawnFailed cmd msg) = ''Failed to run '' @ cmd @ '': '' @ msg"
| "error_message (External msg) = msg"

section \<open>Scheduler (core/task-scheduler.ts)\<close>

subsection \<open>Dependency validation\<close>

text \<open>
  The two nested \<open>for\<close> loops at the head of \<open>buildExecutionWaves\<close>: the first dependency,
  in list order, that is not the id of a task of the input raises.
\<close>

fun checkDeps :: "string set \<Rightarrow> Task \<Rightarrow> string list \<Rightarrow> error + unit" where
  "checkDeps taskIds task [] = Inr ()"
| "checkDeps taskIds task (dep # deps) =
     (if dep \<notin> taskIds then Inl (UnknownDependency (task_id task) dep)
      else checkDeps taskIds task deps)"

fun validateDependencies :: "string set \<Rightarrow> Task list \<Rightarrow> error + unit" where
  "validateDependencies taskIds [] = Inr ()"
| "validateDependencies taskIds (task # tasks) =
     (case checkDeps taskIds task (dependencies task) of
        Inl e \<Rightarrow> Inl e
      | Inr _ \<Rightarrow> validateDependencies taskIds tasks)"

subsection \<open>Cycle detection\<close>

text \<open>
  \<open>new Map(tasks.map((t) => [t.id, t]))\<close>: a later task with the same id replaces an
  earlier one.
\<close>

definition taskMap :: "Task list \<Rightarrow> string \<Rightarrow> Task option" where
  "taskMap tasks = fold (\<lambda>t m. m(task_id t \<mapsto> t)) tasks Map.empty"

text \<open>
  The closure \<open>dfs\<close> of \<open>detectCircularDependencies\<close> mutates the two sets \<open>visited\<close> and
  \<open>recursionStack\<close>; the model passes them in and returns them. \<open>dfs_deps\<close> is the
  \<open>for (const dep of task.dependencies)\<close> loop of its body.
\<close>

type_synonym dfs_state = "string set \<times> string set"

function dfs :: "Task list \<Rightarrow> string \<Rightarrow> string list \<Rightarrow> dfs_state \<Rightarrow> error + dfs_state"
  and dfs_deps :: "Task list \<Rightarrow> string list \<Rightarrow> string list \<Rightarrow> dfs_state \<Rightarrow> error + dfs_state"
where
  "dfs tasks taskId path (visited, recursionStack) =
     (if taskId \<in> recursionStack then Inl (CircularDependency (path @ [taskId]))
      else if taskId \<in> visited then Inr (visited, recursionStack)
      else (case taskMap tasks taskId of
              None \<Rightarrow> Inr (insert taskId visited, insert taskId recursionStack - {taskId})
            | Some task \<Rightarrow>
                (case dfs_deps tasks (dependencies task) (path @ [taskId])
                        (insert taskId visited, insert taskId recursionStack) of
                   Inl e \<Rightarrow> Inl e
                 | Inr (visited', recursionStack') \<Rightarrow>
                     Inr (visited', recursionStack' - {taskId}))))"
| "dfs_deps tasks [] path st = Inr st"
| "dfs_deps tasks (dep # deps) path st =
     (case dfs tasks dep path st of
        Inl e \<Rightarrow> Inl e
      | Inr st' \<Rightarrow> dfs_deps tasks deps path st')"
  by pat_completeness auto

text \<open>
  The traversal returns because every call that goes on adds a task id to \<open>visited\<close>
  that was not there, and \<open>visited\<close> never shrinks.
\<close>

lemma taskMap_eq: "taskMap tasks = map_of (rev (map (\<lambda>t. (task_id t, t)) tasks))"
proof -
  have "fold (\<lambda>t m. m(task_id t \<mapsto> t)) tasks m =
        m ++ map_of (rev (map (\<lambda>t. (task_id t, t)) tasks))" for m
    by (induction tasks arbitrary: m) (auto simp: map_add_def fun_eq_iff split: option.splits)
  then show ?thesis by (simp add: taskMap_def)
qed

lemma taskMap_SomeD: "taskMap tasks x = Some t \<Longrightarrow> t \<in> set tasks \<and> task_id t = x"
  by (auto simp: taskMap_eq dest!: map_of_SomeD)

lemma dfs_visited_mono_dom:
  "dfs_dfs_deps_dom (Inl (tasks, taskId, path, st)) \<Longrightarrow>
     dfs tasks taskId path st = Inr st' \<Longrightarrow> fst st \<subseteq> fst st'"
  "dfs_dfs_deps_dom (Inr (tasks, deps, path, st)) \<Longrightarrow>
     dfs_deps tasks deps path st = Inr st'' \<Longrightarrow> fst st \<subseteq> fst st''"
proof (induct tasks taskId path st and tasks deps path st arbitrary: st' and st''
       rule: dfs_dfs_deps.pinduct)
  case (1 tasks taskId path visited recursionStack)
  show ?case
  proof (cases "taskId \<in> recursionStack \<or> taskId \<in> visited")
    case True
    with "1.prems" "1.hyps"(1) show ?thesis
      by (auto simp: dfs.psimps split: if_splits)
  next
    case False
    show ?thesis
    proof (cases "taskMap tasks taskId")
      case None
      with False "1.prems" "1.hyps"(1) show ?thesis
        by (auto simp: dfs.psimps)
    next
      case (Some task)
      from False Some "1.prems" "1.hyps"(1) obtain v s where
        r: "dfs_deps tasks (dependencies task) (path @ [taskId])
              (insert taskId visited, insert taskId recursionStack) = Inr (v, s)"
        and st': "st' = (v, s - {taskId})"
        by (auto simp: dfs.psimps split: sum.splits prod.splits)
      from "1.hyps"(2)[OF _ _ Some r] False have "insert taskId visited \<subseteq> v" by simp
      with st' show ?thesis by auto
    qed
  qed
next
  case (2 tasks path st)
  then show ?case by (simp add: dfs_deps.psimps)
next
  case (3 tasks dep deps path st)
  from "3.prems" "3.hyps"(1) obtain st1 where
    a: "dfs tasks dep path st = Inr st1" and b: "dfs_deps tasks deps path st1 = Inr st''"
    by (auto simp: dfs_deps.psimps split: sum.splits)
  from "3.hyps"(2)[OF a] "3.hyps"(3)[OF a b] show ?case by blast
qed

termination dfs
proof (relation "inv_image (less_than <*lex*> less_than)
         (\<lambda>x. case x of
            Inl (tasks, taskId, path, st) \<Rightarrow> (card (task_id ` set tasks - fst st), 0)
          | Inr (tasks, deps, path, st) \<Rightarrow>
              (card (task_id ` set tasks - fst st), Suc (length deps)))",
       goal_cases)
  case 1
  show ?case by (intro wf_inv_image wf_lex_prod wf_less_than)
next
  case (2 tasks taskId path visited recursionStack task)
  then have "taskId \<in> task_id ` set tasks - visited"
    by (auto dest: taskMap_SomeD)
  then have "card (task_id ` set tasks - insert taskId visited)
             < card (task_id ` set tasks - visited)"
    by (metis Diff_insert card_Diff1_less finite_Diff finite_imageI finite_set)
  then show ?case by simp
next
  case (3 tasks dep deps path st)
  then show ?case by simp
next
  case (4 tasks dep deps path st st')
  then have "fst st \<subseteq> fst st'" by (rule dfs_visited_mono_dom(1)[rotated])
  then have "card (task_id ` set tasks - fst st') \<le> card (task_id ` set tasks - fst st)"
    by (intro card_mono) auto
  then show ?case by auto
qed

text \<open>The outer loop: \<open>dfs(task.id, [])\<close> for every task not yet visited.\<close>

fun detectLoop :: "Task list \<Rightarrow> Task list \<Rightarrow> dfs_state \<Rightarrow> error + dfs_state" where
  "detectLoop tasks [] st = Inr st"
| "detectLoop tasks (task # rest) st =
     (if task_id task \<notin> fst st then
        (case dfs tasks (task_id task) [] st of
           Inl e \<Rightarrow> Inl e
         | Inr st' \<Rightarrow> detectLoop tasks rest st')
      else detectLoop tasks rest st)"

definition detectCircularDependencies :: "Task list \<Rightarrow> error + unit" where
  "detectCircularDependencies tasks =
     (case detectLoop tasks tasks ({}, {}) of Inl e \<Rightarrow> Inl e | Inr _ \<Rightarrow> Inr ())"

subsection \<open>Waves\<close>

text \<open>
  \<open>groups\<close> is a JavaScript \<open>Map\<close>, which keeps its keys in insertion order: an association
  list, updated in place (\<open>AList.update\<close> replaces the value of a key that is there and
  appends a new key at the end).
\<close>

definition groupTasks :: "Task list \<Rightarrow> (int \<times> Task list) list" where
  "groupTasks tasks =
     fold (\<lambda>task groups.
             AList.update (parallelGroup task)
               ((case map_of groups (parallelGroup task) of None \<Rightarrow> [] | Some g \<Rightarrow> g) @ [task])
               groups)
          tasks []"

definition depsCompleted :: "string set \<Rightarrow> Task \<Rightarrow> bool" where
  "depsCompleted allCompleted task = list_all (\<lambda>dep. dep \<in> allCompleted) (dependencies task)"

text \<open>
  One sweep of the inner \<open>for\<close> loop of \<open>buildWavesWithDependencies\<close>: it walks \<open>remaining\<close>
  from its last index down to 0 (so \<open>foldr\<close>), pushes every task whose dependencies are
  all in \<open>allCompleted\<close> onto \<open>currentWave\<close> and splices it out of \<open>remaining\<close>.
\<close>

definition sweep :: "string set \<Rightarrow> Task list \<Rightarrow> Task list \<times> Task list" where
  "sweep allCompleted remaining =
     foldr (\<lambda>task (currentWave, rest).
              if depsCompleted allCompleted task then (currentWave @ [task], rest)
              else (currentWave, task # rest))
           remaining ([], [])"

lemma sweep_eq:
  "sweep c remaining =
     (rev (filter (depsCompleted c) remaining), filter (\<lambda>t. \<not> depsCompleted c t) remaining)"
  by (induction remaining) (auto simp: sweep_def)

function buildWavesLoop ::
  "Task list \<Rightarrow> string set \<Rightarrow> Task list list \<Rightarrow> error + Task list list" where
  "buildWavesLoop remaining allCompleted waves =
     (if remaining = [] then Inr waves
      else (case sweep allCompleted remaining of
              (currentWave, remaining') \<Rightarrow>
                if currentWave = [] \<and> remaining' \<noteq> []
                then Inl (UnschedulableTasks (map task_id remaining'))
                else if currentWave \<noteq> []
                then buildWavesLoop remaining'
                       (allCompleted \<union> set (map task_id currentWave)) (waves @ [currentWave])
                else buildWavesLoop remaining' allCompleted waves))"
  by pat_completeness auto
termination
proof (relation "measure (\<lambda>(remaining, allCompleted, waves). length remaining)", goal_cases)
  case 1
  show ?case by simp
next
  case (2 remaining allCompleted waves currentWave remaining')
  then have "filter (depsCompleted allCompleted) remaining \<noteq> []"
    and "remaining' = filter (\<lambda>t. \<not> depsCompleted allCompleted t) remaining"
    by (auto simp: sweep_eq)
  then show ?case
    using sum_length_filter_compl[of "depsCompleted allCompleted" remaining]
    by (cases "filter (depsCompleted allCompleted) remaining") auto
next
  case (3 remaining allCompleted waves currentWave remaining')
  then show ?case by (cases remaining) auto
qed

definition buildWavesWithDependencies :: "Task list \<Rightarrow> string set \<Rightarrow> error + Task list list" where
  "buildWavesWithDependencies tasks completed = buildWavesLoop tasks completed []"

text \<open>
  The body of the loop over the waves of one group: a non-empty wave is appended to
  \<open>allWaves\<close> and its ids are added to \<open>completed\<close>.
\<close>

fun addWaves ::
  "Task list list \<Rightarrow> string set \<Rightarrow> Task list list \<Rightarrow> string set \<times> Task list list" where
  "addWaves [] completed allWaves = (completed, allWaves)"
| "addWaves (wave # groupWaves) completed allWaves =
     (if wave \<noteq> []
      then addWaves groupWaves (completed \<union> set (map task_id wave)) (allWaves @ [wave])
      else addWaves groupWaves completed allWaves)"

fun buildGroups ::
  "(int \<times> Task list) list \<Rightarrow> int list \<Rightarrow> string set \<Rightarrow> Task list list \<Rightarrow>
   error + Task list list" where
  "buildGroups groups [] completed allWaves = Inr allWaves"
| "buildGroups groups (groupNum # rest) completed allWaves =
     (case buildWavesWithDependencies
             (case map_of groups groupNum of None \<Rightarrow> [] | Some g \<Rightarrow> g) completed of
        Inl e \<Rightarrow> Inl e
      | Inr groupWaves \<Rightarrow>
          (case addWaves groupWaves completed allWaves of
             (completed', allWaves') \<Rightarrow> buildGroups groups rest completed' allWaves'))"

definition buildExecutionWaves :: "Task list \<Rightarrow> error + Task list list" where
  "buildExecutionWaves tasks =
     (if tasks = [] then Inr []
      else (case validateDependencies (set (map task_id tasks)) tasks of
              Inl e \<Rightarrow> Inl e
            | Inr _ \<Rightarrow>
                (case detectCircularDependencies tasks of
                   Inl e \<Rightarrow> Inl e
                 | Inr _ \<Rightarrow>
                     (let groups = groupTasks tasks;
                          sortedGroupNums = sort (map fst groups)
                      in buildGroups groups sortedGroupNums {} []))))"

subsection \<open>Estimates\<close>

text \<open>
  \<open>parseEstimate\<close> matches the estimate against
  \<^verbatim>\<open>/^(\d+(?:\.\d+)?)\s*(h|d|hr|hrs|hour|hours|day|days)?$/i\<close>.
  \<open>estimatePattern\<close> is that match, returning the two groups: the number (digits, and a
  fraction only when a dot is followed by a digit), then white space, then nothing or one
  of the units in any letter case, up to the end of the string. Hours are rationals, the
  exact value of the decimal numeral: the binary rounding of \<open>Number.parseFloat\<close> is left out.
\<close>

definition isDigit :: "char \<Rightarrow> bool" where
  "isDigit c = (c \<in> set ''0123456789'')"

definition isSpace :: "char \<Rightarrow> bool" where
  "isSpace c = (c \<in> {CHR '' '', CHR 0x09, CHR 0x0A, CHR 0x0B, CHR 0x0C, CHR 0x0D, CHR 0xA0})"

definition toLowerCase :: "string \<Rightarrow> string" where
  "toLowerCase s =
     map (\<lambda>c. if CHR ''A'' \<le> c \<and> c \<le> CHR ''Z'' then char_of (of_char c + (32::nat)) else c) s"

definition toUpperCase :: "string \<Rightarrow> string" where
  "toUpperCase s =
     map (\<lambda>c. if CHR ''a'' \<le> c \<and> c \<le> CHR ''z'' then char_of (of_char c - (32::nat)) else c) s"

definition estimateUnits :: "string list" where
  "estimateUnits = [''h'', ''d'', ''hr'', ''hrs'', ''hour'', ''hours'', ''day'', ''days'']"

definition estimatePattern :: "string \<Rightarrow> (string \<times> string option) option" where
  "estimatePattern s =
     (let digits = takeWhile isDigit s; afterDigits = dropWhile isDigit s
      in if digits = [] then None
         else (case (case afterDigits of
                       c # r \<Rightarrow>
                         if c = CHR ''.'' \<and> takeWhile isDigit r \<noteq> []
                         then (digits @ [c] @ takeWhile isDigit r, dropWhile isDigit r)
                         else (digits, afterDigits)
                     | [] \<Rightarrow> (digits, afterDigits)) of
                 (num, afterNum) \<Rightarrow>
                   (let unit = dropWhile isSpace afterNum
                    in if unit = [] then Some (num, None)
                       else if toLowerCase unit \<in> set estimateUnits then Some (num, Some unit)
                       else None)))"

definition digitsValue :: "string \<Rightarrow> nat" where
  "digitsValue ds = foldl (\<lambda>n c. 10 * n + (of_char c - 48)) 0 ds"

definition parseFloat :: "string \<Rightarrow> rat" where
  "parseFloat num =
     (let whole = takeWhile isDigit num;
          frac = (case dropWhile isDigit num of c # r \<Rightarrow> takeWhile isDigit r | [] \<Rightarrow> [])
      in of_nat (digitsValue whole) + of_nat (digitsValue frac) / 10 ^ length frac)"

definition parseEstimate :: "string option \<Rightarrow> rat" where
  "parseEstimate est =
     (case est of
        None \<Rightarrow> 0
      | Some s \<Rightarrow>
          if s = [] then 0
          else (case estimatePattern s of
                  None \<Rightarrow> 0
                | Some (num, unit) \<Rightarrow>
                    (let v = parseFloat num;
                         u = toLowerCase (case unit of None \<Rightarrow> ''h'' | Some x \<Rightarrow> if x = [] then ''h'' else x)
                     in if take 1 u = ''d'' then v * 8 else v)))"

text \<open>
  \<open>calculateEstimatedDuration\<close>: the hours of a wave are the maximum over its tasks,
  starting from 0; the total is the sum over the waves. The model returns the total as a
  number, before \<open>formatHours\<close> renders it.
\<close>

record WaveEstimate =
  wave_number :: nat
  wave_tasks :: "string list"
  estimatedHours :: rat
  parallel :: bool

definition waveHours :: "Task list \<Rightarrow> rat" where
  "waveHours w = fold (\<lambda>task hours. max hours (parseEstimate (estimate task))) w 0"

definition totalHours :: "Task list list \<Rightarrow> rat" where
  "totalHours waves = fold (\<lambda>w total. total + waveHours w) waves 0"

definition calculateEstimatedDuration :: "Task list \<Rightarrow> error + (rat \<times> WaveEstimate list)" where
  "calculateEstimatedDuration ts =
     (case buildExecutionWaves ts of
        Inl e \<Rightarrow> Inl e
      | Inr waves \<Rightarrow>
          Inr (totalHours waves,
               map (\<lambda>(i, w). \<lparr>wave_number = i + 1, wave_tasks = map task_id w,
                               estimatedHours = waveHours w, parallel = (length w > 1)\<rparr>)
                   (enumerate 0 waves)))"

section \<open>Session store (core/session-manager.ts)\<close>

text \<open>
  A timestamp is the instant \<open>new Date().toISOString()\<close> renders (ISO strings of instants
  compare as the instants do); the clock is an argument \<open>now\<close> of the operations that read
  it, and the fresh identifier of \<open>crypto.randomUUID()\<close> is an argument \<open>uuid\<close>.
\<close>

record TaskError =
  iterations :: nat
  lastError :: string
  retried :: bool
  resolved :: bool

record Checkpoint =
  timestamp :: nat
  taskId :: string
  cp_status :: TaskStatus
  prLink :: "string option"
  duration :: "int option"
  cp_error :: "string option"

record Session =
  session_id :: string
  project :: string
  session_phase :: string
  startedAt :: nat
  lastCheckpointAt :: "nat option"
  currentTask :: "string option"
  completedTasks :: "string list"
  failedTasks :: "string list"
  pendingTasks :: "string list"
  worktrees :: "string \<rightharpoonup> string"
  branches :: "string \<rightharpoonup> string"
  prs :: "string \<rightharpoonup> string"
  checkpoints :: "Checkpoint list"
  errors :: "string \<rightharpoonup> TaskError"

text \<open>
  The two tables. The JSON text columns of \<open>sessions\<close> hold lists and objects, which the
  model keeps as lists and maps. \<open>checkpoint_seq\<close> is the counter behind
  \<open>INTEGER PRIMARY KEY AUTOINCREMENT\<close>.
\<close>

record SessionRow =
  row_id :: string
  row_project :: string
  row_phase :: string
  started_at :: nat
  last_checkpoint_at :: "nat option"
  current_task :: "string option"
  completed_tasks :: "string list"
  failed_tasks :: "string list"
  pending_tasks :: "string list"
  row_worktrees :: "string \<rightharpoonup> string"
  row_branches :: "string \<rightharpoonup> string"
  row_prs :: "string \<rightharpoonup> string"
  row_errors :: "string \<rightharpoonup> TaskError"

record CheckpointRow =
  cp_id :: nat
  cp_session_id :: string
  cp_timestamp :: nat
  cp_task_id :: string
  cp_row_status :: TaskStatus
  pr_link :: "string option"
  cp_duration :: "int option"
  cp_row_error :: "string option"

record Database =
  sessions :: "SessionRow list"
  checkpoint_rows :: "CheckpointRow list"
  checkpoint_seq :: nat

definition emptyDatabase :: Database where
  "emptyDatabase = \<lparr>sessions = [], checkpoint_rows = [], checkpoint_seq = 0\<rparr>"

text \<open>\<open>x || null\<close> and \<open>x || undefined\<close>: an empty string and the number 0 are falsy.\<close>

definition truthyString :: "string option \<Rightarrow> string option" where
  "truthyString x = (case x of None \<Rightarrow> None | Some v \<Rightarrow> if v = [] then None else Some v)"

definition truthyNumber :: "int option \<Rightarrow> int option" where
  "truthyNumber x = (case x of None \<Rightarrow> None | Some v \<Rightarrow> if v = 0 then None else Some v)"

text \<open>
  The SQL statements the store runs. Outside \<open>db.transaction\<close> every statement commits
  on its own.
\<close>

datatype stmt =
    InsertSession SessionRow
  | InsertCheckpoint string nat string TaskStatus "string option" "int option" "string option"
  | UpdateSession Session
  | DeleteCheckpoints string
  | DeleteSessionRow string

text \<open>
  The \<open>SET\<close> clause of \<open>updateSession\<close>: the nine columns it writes; \<open>id\<close>, \<open>project\<close>,
  \<open>phase\<close> and \<open>started_at\<close> stay.
\<close>

definition writeBack :: "Session \<Rightarrow> SessionRow \<Rightarrow> SessionRow" where
  "writeBack s r =
     r\<lparr>last_checkpoint_at := lastCheckpointAt s,
       current_task := currentTask s,
       completed_tasks := completedTasks s,
       failed_tasks := failedTasks s,
       pending_tasks := pendingTasks s,
       row_worktrees := worktrees s,
       row_branches := branches s,
       row_prs := prs s,
       row_errors := errors s\<rparr>"

fun exec :: "stmt \<Rightarrow> Database \<Rightarrow> Database" where
  "exec (InsertSession r) db = db\<lparr>sessions := sessions db @ [r]\<rparr>"
| "exec (InsertCheckpoint sid ts tid st pl du er) db =
     db\<lparr>checkpoint_rows := checkpoint_rows db @
            [\<lparr>cp_id = Suc (checkpoint_seq db), cp_session_id = sid, cp_timestamp = ts,
              cp_task_id = tid, cp_row_status = st, pr_link = pl, cp_duration = du,
              cp_row_error = er\<rparr>],
         checkpoint_seq := Suc (checkpoint_seq db)\<rparr>"
| "exec (UpdateSession s) db =
     db\<lparr>sessions :=
          map (\<lambda>r. if row_id r = session_id s then writeBack s r else r) (sessions db)\<rparr>"
| "exec (DeleteCheckpoints sid) db =
     db\<lparr>checkpoint_rows := filter (\<lambda>c. cp_session_id c \<noteq> sid) (checkpoint_rows db)\<rparr>"
| "exec (DeleteSessionRow sid) db =
     db\<lparr>sessions := filter (\<lambda>r. row_id r \<noteq> sid) (sessions db)\<rparr>"

text \<open>
  A sequence of statements that is interrupted (the process dies, or a statement raises)
  after its first \<open>k\<close> statements: outside a transaction the statements that ran stay
  committed; inside \<open>db.transaction\<close> an interrupted sequence is rolled back as a whole.
\<close>

definition autocommit :: "stmt list \<Rightarrow> nat \<Rightarrow> Database \<Rightarrow> Database" where
  "autocommit stmts k db = fold exec (take k stmts) db"

definition transaction :: "stmt list \<Rightarrow> nat \<Rightarrow> Database \<Rightarrow> Database" where
  "transaction stmts k db = (if k < length stmts then db else fold exec stmts db)"

text \<open>
  Reading a session validates it against \<open>SessionSchema\<close> and its checkpoints against
  \<open>CheckpointSchema\<close>, and a failed validation raises. On rows this store wrote the checks
  that can fail are the phase pattern \<^verbatim>\<open>/^p\d{2}$/i\<close>, the non-empty project and the URL of
  a checkpoint's \<open>prLink\<close>; identifiers and timestamps are well formed by construction.
  What counts as a URL is decided outside the repository: the predicate \<open>isUrl\<close> is an
  argument.
\<close>

definition phaseOk :: "string \<Rightarrow> bool" where
  "phaseOk p = (case p of
                  [c, d1, d2] \<Rightarrow> (c = CHR ''p'' \<or> c = CHR ''P'') \<and> isDigit d1 \<and> isDigit d2
                | _ \<Rightarrow> False)"

definition parseCheckpoint :: "(string \<Rightarrow> bool) \<Rightarrow> CheckpointRow \<Rightarrow> error + Checkpoint" where
  "parseCheckpoint isUrl cp =
     (case truthyString (pr_link cp) of
        Some u \<Rightarrow>
          if isUrl u
          then Inr \<lparr>timestamp = cp_timestamp cp, taskId = cp_task_id cp,
                    cp_status = cp_row_status cp, prLink = Some u,
                    duration = truthyNumber (cp_duration cp),
                    cp_error = truthyString (cp_row_error cp)\<rparr>
          else Inl (SchemaError ''Invalid url'')
      | None \<Rightarrow>
          Inr \<lparr>timestamp = cp_timestamp cp, taskId = cp_task_id cp,
               cp_status = cp_row_status cp, prLink = None,
               duration = truthyNumber (cp_duration cp),
               cp_error = truthyString (cp_row_error cp)\<rparr>)"

fun parseCheckpoints :: "(string \<Rightarrow> bool) \<Rightarrow> CheckpointRow list \<Rightarrow> error + Checkpoint list" where
  "parseCheckpoints isUrl [] = Inr []"
| "parseCheckpoints isUrl (cp # cps) =
     (case parseCheckpoint isUrl cp of
        Inl e \<Rightarrow> Inl e
      | Inr c \<Rightarrow>
          (case parseCheckpoints isUrl cps of
             Inl e \<Rightarrow> Inl e
           | Inr cs \<Rightarrow> Inr (c # cs)))"

definition rowToSession :: "(string \<Rightarrow> bool) \<Rightarrow> Database \<Rightarrow> SessionRow \<Rightarrow> error + Session" where
  "rowToSession isUrl db r =
     (case parseCheckpoints isUrl
             (sort_key cp_timestamp
                (filter (\<lambda>c. cp_session_id c = row_id r) (checkpoint_rows db))) of
        Inl e \<Rightarrow> Inl e
      | Inr cps \<Rightarrow>
          if row_project r = [] then Inl (SchemaError ''String must contain at least 1 character(s)'')
          else if \<not> phaseOk (row_phase r) then Inl (SchemaError ''Phase must be in format p00'')
          else Inr \<lparr>session_id = row_id r, project = row_project r,
                    session_phase = row_phase r, startedAt = started_at r,
                    lastCheckpointAt = last_checkpoint_at r,
                    currentTask = current_task r,
                    completedTasks = completed_tasks r,
                    failedTasks = failed_tasks r,
                    pendingTasks = pending_tasks r,
                    worktrees = row_worktrees r, branches = row_branches r,
                    prs = row_prs r, checkpoints = cps, errors = row_errors r\<rparr>)"

text \<open>\<open>SELECT * FROM sessions WHERE id = ?\<close>, read with \<open>stmt.get\<close>: the first such row.\<close>

definition sessionRow :: "Database \<Rightarrow> string \<Rightarrow> SessionRow option" where
  "sessionRow db sessionId = find (\<lambda>r. row_id r = sessionId) (sessions db)"

definition getSession :: "(string \<Rightarrow> bool) \<Rightarrow> Database \<Rightarrow> string \<Rightarrow> error + Session option" where
  "getSession isUrl db sessionId =
     (case sessionRow db sessionId of
        None \<Rightarrow> Inr None
      | Some r \<Rightarrow>
          (case rowToSession isUrl db r of Inl e \<Rightarrow> Inl e | Inr s \<Rightarrow> Inr (Some s)))"

text \<open>\<open>const session = this.getSession(sessionId); if (!session) throw ...\<close>\<close>

definition requireSession :: "(string \<Rightarrow> bool) \<Rightarrow> Database \<Rightarrow> string \<Rightarrow> error + Session" where
  "requireSession isUrl db sessionId =
     (case getSession isUrl db sessionId of
        Inl e \<Rightarrow> Inl e
      | Inr None \<Rightarrow> Inl (SessionNotFound sessionId)
      | Inr (Some s) \<Rightarrow> Inr s)"

definition createSession ::
  "Database \<Rightarrow> string \<Rightarrow> nat \<Rightarrow> string \<Rightarrow> string \<Rightarrow> string list \<Rightarrow> error + (Session \<times> Database)" where
  "createSession db uuid now proj ph ts =
     (if uuid \<in> row_id ` set (sessions db)
      then Inl (ConstraintError ''UNIQUE constraint failed: sessions.id'')
      else Inr (\<lparr>session_id = uuid, project = proj, session_phase = ph, startedAt = now,
                 lastCheckpointAt = None, currentTask = None, completedTasks = [],
                 failedTasks = [], pendingTasks = ts, worktrees = Map.empty,
                 branches = Map.empty, prs = Map.empty, checkpoints = [],
                 errors = Map.empty\<rparr>,
                exec (InsertSession
                        \<lparr>row_id = uuid, row_project = proj, row_phase = ph, started_at = now,
                         last_checkpoint_at = None, current_task = None,
                         completed_tasks = [], failed_tasks = [], pending_tasks = ts,
                         row_worktrees = Map.empty, row_branches = Map.empty,
                         row_prs = Map.empty, row_errors = Map.empty\<rparr>) db))"

definition updateSession :: "Database \<Rightarrow> Session \<Rightarrow> Database" where
  "updateSession db s = exec (UpdateSession s) db"

definition startTask :: "(string \<Rightarrow> bool) \<Rightarrow> Database \<Rightarrow> string \<Rightarrow> string \<Rightarrow> error + Database" where
  "startTask isUrl db sessionId tid =
     (case requireSession isUrl db sessionId of
        Inl e \<Rightarrow> Inl e
      | Inr s \<Rightarrow>
          Inr (updateSession db
                 (s\<lparr>currentTask := Some tid,
                    pendingTasks := filter (\<lambda>t. t \<noteq> tid) (pendingTasks s)\<rparr>)))"

record CheckpointOptions =
  opt_prLink :: "string option"
  opt_duration :: "int option"
  opt_error :: "string option"

definition noOptions :: CheckpointOptions where
  "noOptions = \<lparr>opt_prLink = None, opt_duration = None, opt_error = None\<rparr>"

text \<open>
  \<open>saveCheckpoint\<close> runs two statements, the \<open>INSERT\<close> of the checkpoint row and then the
  \<open>UPDATE\<close> of \<open>updateSession\<close>, with no transaction around them. \<open>saveCheckpointStmts\<close>
  is that sequence, built from the session as read at the start of the call.
\<close>

definition saveCheckpointStmts ::
  "Session \<Rightarrow> string \<Rightarrow> string \<Rightarrow> TaskStatus \<Rightarrow> CheckpointOptions \<Rightarrow> nat \<Rightarrow> stmt list" where
  "saveCheckpointStmts s sessionId tid st opts now =
     [InsertCheckpoint sessionId now tid st (truthyString (opt_prLink opts))
        (truthyNumber (opt_duration opts)) (truthyString (opt_error opts)),
      UpdateSession
        (s\<lparr>lastCheckpointAt := Some now,
           currentTask := None,
           completedTasks := (if st = Completed then completedTasks s @ [tid]
                              else completedTasks s),
           failedTasks := (if st = Completed then failedTasks s
                           else if st = Failed then failedTasks s @ [tid]
                           else failedTasks s)\<rparr>)]"

definition saveCheckpoint ::
  "(string \<Rightarrow> bool) \<Rightarrow> Database \<Rightarrow> string \<Rightarrow> string \<Rightarrow> TaskStatus \<Rightarrow> CheckpointOptions \<Rightarrow> nat \<Rightarrow>
   error + Database" where
  "saveCheckpoint isUrl db sessionId tid st opts now =
     (case requireSession isUrl db sessionId of
        Inl e \<Rightarrow> Inl e
      | Inr s \<Rightarrow>
          (let stmts = saveCheckpointStmts s sessionId tid st opts now
           in Inr (autocommit stmts (length stmts) db)))"

text \<open>The same call, interrupted after its first \<open>k\<close> statements.\<close>

definition saveCheckpointInterrupted ::
  "(string \<Rightarrow> bool) \<Rightarrow> Database \<Rightarrow> string \<Rightarrow> string \<Rightarrow> TaskStatus \<Rightarrow> CheckpointOptions \<Rightarrow> nat \<Rightarrow>
   nat \<Rightarrow> error + Database" where
  "saveCheckpointInterrupted isUrl db sessionId tid st opts now k =
     (case requireSession isUrl db sessionId of
        Inl e \<Rightarrow> Inl e
      | Inr s \<Rightarrow> Inr (autocommit (saveCheckpointStmts s sessionId tid st opts now) k db))"

text \<open>
  \<open>deleteSession\<close> wraps its two \<open>DELETE\<close> statements in \<open>this.db.transaction\<close>.
\<close>

definition deleteSessionStmts :: "string \<Rightarrow> stmt list" where
  "deleteSessionStmts sessionId = [DeleteCheckpoints sessionId, DeleteSessionRow sessionId]"

definition deleteSession :: "Database \<Rightarrow> string \<Rightarrow> Database" where
  "deleteSession db sessionId =
     (let stmts = deleteSessionStmts sessionId in transaction stmts (length stmts) db)"

definition deleteSessionInterrupted :: "Database \<Rightarrow> string \<Rightarrow> nat \<Rightarrow> Database" where
  "deleteSessionInterrupted db sessionId k = transaction (deleteSessionStmts sessionId) k db"

definition recordError :: "(string \<Rightarrow> bool) \<Rightarrow> Database \<Rightarrow> string \<Rightarrow> string \<Rightarrow> string \<Rightarrow> error + Database" where
  "recordError isUrl db sessionId tid msg =
     (case requireSession isUrl db sessionId of
        Inl e \<Rightarrow> Inl e
      | Inr s \<Rightarrow>
          Inr (updateSession db
                 (s\<lparr>errors :=
                      (errors s)(tid \<mapsto>
                        (case errors s tid of
                           Some existing \<Rightarrow>
                             \<lparr>iterations = iterations existing + 1, lastError = msg,
                              retried = True, resolved = False\<rparr>
                         | None \<Rightarrow>
                             \<lparr>iterations = 1, lastError = msg, retried = False,
                              resolved = False\<rparr>))\<rparr>)))"

definition resolveError :: "(string \<Rightarrow> bool) \<Rightarrow> Database \<Rightarrow> string \<Rightarrow> string \<Rightarrow> error + Database" where
  "resolveError isUrl db sessionId tid =
     (case requireSession isUrl db sessionId of
        Inl e \<Rightarrow> Inl e
      | Inr s \<Rightarrow>
          (case errors s tid of
             Some existing \<Rightarrow>
               Inr (updateSession db (s\<lparr>errors := (errors s)(tid \<mapsto> existing\<lparr>resolved := True\<rparr>)\<rparr>))
           | None \<Rightarrow> Inr db))"

definition registerWorktree :: "(string \<Rightarrow> bool) \<Rightarrow> Database \<Rightarrow> string \<Rightarrow> string \<Rightarrow> string \<Rightarrow> error + Database" where
  "registerWorktree isUrl db sessionId tid worktreePath =
     (case requireSession isUrl db sessionId of
        Inl e \<Rightarrow> Inl e
      | Inr s \<Rightarrow> Inr (updateSession db (s\<lparr>worktrees := (worktrees s)(tid \<mapsto> worktreePath)\<rparr>)))"

definition registerBranch :: "(string \<Rightarrow> bool) \<Rightarrow> Database \<Rightarrow> string \<Rightarrow> string \<Rightarrow> string \<Rightarrow> error + Database" where
  "registerBranch isUrl db sessionId tid branchName =
     (case requireSession isUrl db sessionId of
        Inl e \<Rightarrow> Inl e
      | Inr s \<Rightarrow> Inr (updateSession db (s\<lparr>branches := (branches s)(tid \<mapsto> branchName)\<rparr>)))"

definition registerPR :: "(string \<Rightarrow> bool) \<Rightarrow> Database \<Rightarrow> string \<Rightarrow> string \<Rightarrow> string \<Rightarrow> error + Database" where
  "registerPR isUrl db sessionId tid prUrl =
     (case requireSession isUrl db sessionId of
        Inl e \<Rightarrow> Inl e
      | Inr s \<Rightarrow> Inr (updateSession db (s\<lparr>prs := (prs s)(tid \<mapsto> prUrl)\<rparr>)))"

section \<open>Hook runner (core/hooks-executor.ts)\<close>

record HooksConfig =
  hook_beforePhase :: "string option"
  hook_beforeTask :: "string option"
  hook_afterTask :: "string option"
  hook_onSuccess :: "string option"
  hook_onError :: "string option"

datatype HookName = BeforePhase | BeforeTask | AfterTask | OnSuccess | OnError

text \<open>
  What a spawned shell command does is outside the code: it closes with an exit code
  (\<open>null\<close> when a signal ended it) and its output, or the spawn itself fails. That outcome
  is an argument of every function that spawns.
\<close>

datatype ProcOutcome = Close "int option" string string | SpawnError string

record HookResult =
  hook_success :: bool
  hook_output :: string

definition trim :: "string \<Rightarrow> string" where
  "trim s = rev (dropWhile isSpace (rev (dropWhile isSpace s)))"

definition executeCommand :: "ProcOutcome \<Rightarrow> HookResult" where
  "executeCommand proc =
     (case proc of
        Close code out err \<Rightarrow> \<lparr>hook_success = (code = Some 0), hook_output = trim (out @ err)\<rparr>
      | SpawnError msg \<Rightarrow> \<lparr>hook_success = False, hook_output = msg\<rparr>)"

definition hookCommand :: "HooksConfig option \<Rightarrow> HookName \<Rightarrow> string option" where
  "hookCommand hooks h =
     (case hooks of
        None \<Rightarrow> None
      | Some c \<Rightarrow>
          (case h of
             BeforePhase \<Rightarrow> hook_beforePhase c
           | BeforeTask \<Rightarrow> hook_beforeTask c
           | AfterTask \<Rightarrow> hook_afterTask c
           | OnSuccess \<Rightarrow> hook_onSuccess c
           | OnError \<Rightarrow> hook_onError c))"

text \<open>\<open>run\<close>: a hook that is not configured (or is the empty string) succeeds without spawning.\<close>

definition runHook :: "HooksConfig option \<Rightarrow> HookName \<Rightarrow> ProcOutcome \<Rightarrow> HookResult" where
  "runHook hooks h proc =
     (case truthyString (hookCommand hooks h) of
        None \<Rightarrow> \<lparr>hook_success = True, hook_output = []\<rparr>
      | Some command \<Rightarrow> executeCommand proc)"


definition beforeTask :: "HooksConfig option \<Rightarrow> ProcOutcome \<Rightarrow> error + unit" where
  "beforeTask hooks proc =
     (let r = runHook hooks BeforeTask proc
      in if \<not> hook_success r then Inl (HookFailed ''beforeTask'' (hook_output r)) else Inr ())"

definition afterTask :: "HooksConfig option \<Rightarrow> ProcOutcome \<Rightarrow> string list" where
  "afterTask hooks proc =
     (let r = runHook hooks AfterTask proc
      in if \<not> hook_success r then [''Warning: afterTask hook failed: '' @ hook_output r] else [])"



section \<open>Task loader (core/task-loader.ts)\<close>

text \<open>
  The loader reads the file system. The model takes what it reads as a value: the
  entries of the specs directory (\<open>None\<close> when the directory does not exist), each a phase
  folder with its \<open>meta.json\<close> and its own entries. Parsing YAML and validating against the
  zod schemas happen outside the modelled code, so a task directory carries the outcome:
  \<open>yamlTask\<close> is the record \<open>TaskSchema.parse\<close> accepts from \<open>task.yaml\<close> (\<open>None\<close> when the file is
  missing, unreadable or rejected), \<open>mdTask\<close> the same for \<open>tasks.md\<close>, both before the id
  is set; \<open>folder_meta\<close> is the task list of a \<open>meta.json\<close> that \<open>PhaseMetaSchema.parse\<close>
  accepts. The estimate of a metadata entry is a JavaScript number of type \<open>'n\<close>; how a
  number prints in a template string is the argument \<open>numToString\<close>.
\<close>

datatype MetaStatus = Not_started | Meta_in_progress | Meta_completed | Meta_failed | Meta_blocked

record 'n PhaseTaskEntry =
  entry_id :: string
  entry_name :: string
  entry_title :: string
  entry_estimate :: 'n
  entry_priority :: Priority
  entry_status :: MetaStatus
  entry_dependencies :: "string list"

record TaskDir =
  dir_name :: string
  dir_isDirectory :: bool
  yamlTask :: "Task option"
  mdTask :: "Task option"

record 'n PhaseFolder =
  folder_name :: string
  folder_isDirectory :: bool
  folder_meta :: "'n PhaseTaskEntry list option"
  folder_entries :: "TaskDir list"

type_synonym 'n SpecsDir = "'n PhaseFolder list option"

text \<open>The regular expressions of the loader, each as the match it computes.\<close>

definition taskDirMatch :: "string \<Rightarrow> string option" where
  \<comment> \<open>\<^verbatim>\<open>/^(T\d{2}-\d{3})/\<close>, group 1\<close>
  "taskDirMatch entry =
     (case entry of
        t # a # b # h # c # d # e # _ \<Rightarrow>
          if t = CHR ''T'' \<and> isDigit a \<and> isDigit b \<and> h = CHR ''-'' \<and> isDigit c \<and> isDigit d \<and> isDigit e
          then Some (take 7 entry) else None
      | _ \<Rightarrow> None)"

definition validTaskId :: "string \<Rightarrow> bool" where
  \<comment> \<open>\<^verbatim>\<open>/^T\d{2}-\d{3}$/\<close>, the id pattern of \<open>TaskSchema\<close>\<close>
  "validTaskId tid = (taskDirMatch tid = Some tid)"

definition phaseFolderMatch :: "string \<Rightarrow> string option" where
  \<comment> \<open>\<^verbatim>\<open>/^(P\d{2})-/i\<close>, group 1\<close>
  "phaseFolderMatch entry =
     (case entry of
        c # a # b # h # _ \<Rightarrow>
          if (c = CHR ''P'' \<or> c = CHR ''p'') \<and> isDigit a \<and> isDigit b \<and> h = CHR ''-''
          then Some (take 3 entry) else None
      | _ \<Rightarrow> None)"

definition taskPhaseMatch :: "string \<Rightarrow> string option" where
  \<comment> \<open>\<^verbatim>\<open>/^T(\d{2})/\<close>, group 1\<close>
  "taskPhaseMatch tid =
     (case tid of
        t # a # b # _ \<Rightarrow> if t = CHR ''T'' \<and> isDigit a \<and> isDigit b then Some [a, b] else None
      | _ \<Rightarrow> None)"

definition isLineTerminator :: "char \<Rightarrow> bool" where
  "isLineTerminator c = (c = CHR 0x0A \<or> c = CHR 0x0D)"

definition dirSlugMatch :: "string \<Rightarrow> string option" where
  \<comment> \<open>\<^verbatim>\<open>/^T\d{2}-\d{3}-(.+)$/\<close>, group 1\<close>
  "dirSlugMatch dirName =
     (case taskDirMatch dirName of
        None \<Rightarrow> None
      | Some _ \<Rightarrow>
          (case drop 7 dirName of
             h # slug \<Rightarrow>
               if h = CHR ''-'' \<and> slug \<noteq> [] \<and> \<not> list_ex isLineTerminator slug
               then Some slug else None
           | [] \<Rightarrow> None))"

definition startsWith :: "string \<Rightarrow> string \<Rightarrow> bool" where
  "startsWith s pre = (take (length pre) s = pre)"

definition minimalTask :: "string \<Rightarrow> string \<Rightarrow> Task" where
  "minimalTask dirName tid =
     \<lparr>task_id = tid,
      name = (case dirSlugMatch dirName of
                Some slug \<Rightarrow> map (\<lambda>c. if c = CHR ''-'' then CHR '' '' else c) slug
              | None \<Rightarrow> ''Task '' @ tid),
      description = None, status = Pending, parallelGroup = 1, dependencies = [],
      files = [], acceptanceCriteria = [], estimate = None, priority = None, phase = None,
      requirements = [], businessRules = [], testingRequirements = [], skills = []\<rparr>"

text \<open>
  \<open>loadTaskFromDir\<close>: \<open>task.yaml\<close> first, then \<open>tasks.md\<close>, then the minimal record from the
  directory name. Both parsed records get \<open>id: taskId\<close>, which \<open>TaskSchema\<close> checks against
  its id pattern; a rejected record falls through to the next source.
\<close>

definition loadTaskFromDir :: "TaskDir \<Rightarrow> string \<Rightarrow> Task" where
  "loadTaskFromDir d tid =
     (case (if validTaskId tid then yamlTask d else None) of
        Some t \<Rightarrow> t\<lparr>task_id := tid\<rparr>
      | None \<Rightarrow>
          (case (if validTaskId tid then mdTask d else None) of
             Some t \<Rightarrow> t\<lparr>task_id := tid\<rparr>
           | None \<Rightarrow> minimalTask (dir_name d) tid))"

definition findPhaseFolder :: "'n PhaseFolder list \<Rightarrow> string \<Rightarrow> 'n PhaseFolder option" where
  "findPhaseFolder specEntries phasePrefix =
     find (\<lambda>f. case phaseFolderMatch (folder_name f) of
                  None \<Rightarrow> False
                | Some m \<Rightarrow> toUpperCase m = phasePrefix)
          specEntries"

definition loadTask :: "'n SpecsDir \<Rightarrow> string \<Rightarrow> Task option" where
  "loadTask specs tid =
     (case taskPhaseMatch tid of
        None \<Rightarrow> None
      | Some pp \<Rightarrow>
          (case specs of
             None \<Rightarrow> None
           | Some specEntries \<Rightarrow>
               (case findPhaseFolder specEntries (''P'' @ pp) of
                  None \<Rightarrow> None
                | Some folder \<Rightarrow>
                    if \<not> folder_isDirectory folder then None
                    else (case find (\<lambda>d. startsWith (dir_name d) tid \<and> dir_isDirectory d)
                                 (folder_entries folder) of
                            None \<Rightarrow> None
                          | Some d \<Rightarrow> Some (loadTaskFromDir d tid)))))"

definition metaTaskMap :: "'n PhaseTaskEntry list option \<Rightarrow> string \<Rightarrow> 'n PhaseTaskEntry option" where
  "metaTaskMap phaseMeta =
     (case phaseMeta of
        None \<Rightarrow> Map.empty
      | Some entries \<Rightarrow> fold (\<lambda>e m. m(entry_id e \<mapsto> e)) entries Map.empty)"

definition statusMap :: "MetaStatus \<Rightarrow> TaskStatus option" where
  "statusMap m =
     (case m of
        Not_started \<Rightarrow> None
      | Meta_in_progress \<Rightarrow> Some In_progress
      | Meta_completed \<Rightarrow> Some Completed
      | Meta_failed \<Rightarrow> Some Failed
      | Meta_blocked \<Rightarrow> Some Blocked)"

text \<open>The merge of a \<open>meta.json\<close> entry into a loaded task (the body of \<open>if (metaTask)\<close>).\<close>

definition mergeMeta :: "('n \<Rightarrow> string) \<Rightarrow> 'n PhaseTaskEntry \<Rightarrow> Task \<Rightarrow> Task" where
  "mergeMeta numToString metaTask task =
     task\<lparr>dependencies := entry_dependencies metaTask,
          estimate := Some (numToString (entry_estimate metaTask) @ ''h''),
          priority := Some (entry_priority metaTask),
          status := (if entry_status metaTask \<noteq> Not_started
                     then (case statusMap (entry_status metaTask) of
                             Some st \<Rightarrow> st
                           | None \<Rightarrow> status task)
                     else status task)\<rparr>"

definition loadPhaseTasks :: "('n \<Rightarrow> string) \<Rightarrow> 'n PhaseFolder \<Rightarrow> Task list" where
  "loadPhaseTasks numToString folder =
     sort_key task_id
       (concat
          (map (\<lambda>d. case taskDirMatch (dir_name d) of
                       None \<Rightarrow> []
                     | Some tid \<Rightarrow>
                         if dir_isDirectory d
                         then (let task = loadTaskFromDir d tid
                               in case metaTaskMap (folder_meta folder) (task_id task) of
                                    Some metaTask \<Rightarrow> [mergeMeta numToString metaTask task]
                                  | None \<Rightarrow> [task])
                         else [])
               (folder_entries folder)))"

record LoadTasksOptions =
  opt_phase :: "string option"
  opt_taskIds :: "string list option"

definition loadTasks :: "('n \<Rightarrow> string) \<Rightarrow> 'n SpecsDir \<Rightarrow> LoadTasksOptions \<Rightarrow> Task list" where
  "loadTasks numToString specs options =
     (case (case opt_taskIds options of None \<Rightarrow> [] | Some ids \<Rightarrow> ids) of
        tid # tids \<Rightarrow> List.map_filter (loadTask specs) (tid # tids)
      | [] \<Rightarrow>
          (let ph = (case truthyString (opt_phase options) of None \<Rightarrow> ''p00'' | Some x \<Rightarrow> x)
           in case specs of
                None \<Rightarrow> []
              | Some specEntries \<Rightarrow>
                  (case findPhaseFolder specEntries (toUpperCase ph) of
                     None \<Rightarrow> []
                   | Some folder \<Rightarrow>
                       if \<not> folder_isDirectory folder then []
                       else loadPhaseTasks numToString folder)))"

text \<open>\<open>loadRemainingTasks\<close> of the resume command: \<open>loadTask\<close> for every id, dropping \<open>null\<close>.\<close>

definition loadRemainingTasks :: "'n SpecsDir \<Rightarrow> string list \<Rightarrow> Task list" where
  "loadRemainingTasks specs taskIds = List.map_filter (loadTask specs) taskIds"

section \<open>Executor (commands/run.ts, commands/resume.ts)\<close>

record ExecutionResult =
  success :: bool
  result_output :: string
  exitCode :: int
  result_duration :: int
  completed :: bool
  result_error :: "string option"

record CommandsConfig =
  cmd_test :: "string option"
  cmd_lint :: "string option"
  cmd_build :: "string option"

record ProjectConfig =
  commands :: "CommandsConfig option"
  hooks :: "HooksConfig option"

text \<open>
  Everything one call of \<open>executeTask\<close> gets from outside the modelled code: the outcome
  of each hook and shell command it may spawn, what the worktree manager, the prompt
  builder and the engine return or raise, and the clock at its checkpoint.
\<close>

record Attempt =
  beforeTaskProc :: ProcOutcome
  afterTaskProc :: ProcOutcome
  createWorktree :: "error + (string \<times> string)"
  buildPrompt :: "error + string"
  engineExecute :: "error + ExecutionResult"
  lintProc :: ProcOutcome
  testProc :: ProcOutcome
  hasUncommittedChanges :: "error + bool"
  commitChanges :: "error + unit"
  pushBranch :: "error + unit"
  createPullRequest :: "string option"
  checkpointTime :: nat

text \<open>
  A step runs on the session database and returns a value or raises, with the database
  as it stands then. \<open>andThen\<close> is sequencing: a raise skips the rest.
\<close>

type_synonym 'a step = "Database \<Rightarrow> (error + 'a) \<times> Database"

definition storeOp :: "(Database \<Rightarrow> error + Database) \<Rightarrow> unit step" where
  "storeOp f db = (case f db of Inl e \<Rightarrow> (Inl e, db) | Inr db' \<Rightarrow> (Inr (), db'))"

definition external :: "error + 'a \<Rightarrow> 'a step" where
  "external r db = (r, db)"

definition andThen :: "'a step \<Rightarrow> ('a \<Rightarrow> 'b step) \<Rightarrow> 'b step" where
  "andThen m f db = (case m db of (Inl e, db') \<Rightarrow> (Inl e, db') | (Inr x, db') \<Rightarrow> f x db')"

text \<open>
  The test both executors make on the engine's result:
  \<open>if (!result.success || !result.completed) throw new Error(result.error || 'Execution failed')\<close>.
\<close>

definition completionGuard :: "ExecutionResult \<Rightarrow> error + unit" where
  "completionGuard result =
     (if \<not> success result \<or> \<not> completed result
      then Inl (ExecutionFailed
                  (case truthyString (result_error result) of
                     Some msg \<Rightarrow> msg
                   | None \<Rightarrow> ''Execution failed''))
      else Inr ())"

definition runShellCommand :: "string \<Rightarrow> ProcOutcome \<Rightarrow> error + unit" where
  "runShellCommand cmdName proc =
     (case proc of
        Close code out err \<Rightarrow> if code = Some 0 then Inr () else Inl (CommandFailed cmdName code)
      | SpawnError msg \<Rightarrow> Inl (CommandSpawnFailed cmdName msg))"

definition runValidation :: "ProjectConfig option \<Rightarrow> Attempt \<Rightarrow> error + unit" where
  "runValidation cfg a =
     (case (case cfg of None \<Rightarrow> None | Some c \<Rightarrow> commands c) of
        None \<Rightarrow> Inr ()
      | Some cmds \<Rightarrow>
          (case (case truthyString (cmd_lint cmds) of
                   Some _ \<Rightarrow> runShellCommand ''lint'' (lintProc a)
                 | None \<Rightarrow> Inr ()) of
             Inl e \<Rightarrow> Inl e
           | Inr _ \<Rightarrow>
               (case truthyString (cmd_test cmds) of
                  Some _ \<Rightarrow> runShellCommand ''test'' (testProc a)
                | None \<Rightarrow> Inr ())))"

definition configHooks :: "ProjectConfig option \<Rightarrow> HooksConfig option" where
  "configHooks cfg = (case cfg of None \<Rightarrow> None | Some c \<Rightarrow> hooks c)"

definition hasCommands :: "ProjectConfig option \<Rightarrow> bool" where
  "hasCommands cfg = (case cfg of None \<Rightarrow> False | Some c \<Rightarrow> commands c \<noteq> None)"

subsection \<open>The run command\<close>

text \<open>The \<open>try\<close> block of \<open>TaskExecutor.executeTask\<close>.\<close>

definition executeTaskBody ::
  "(string \<Rightarrow> bool) \<Rightarrow> ProjectConfig option \<Rightarrow> bool \<Rightarrow> Attempt \<Rightarrow> string \<Rightarrow> Task \<Rightarrow> unit step" where
  "executeTaskBody isUrl cfg fast a sessionId task =
     andThen (storeOp (\<lambda>db. startTask isUrl db sessionId (task_id task))) (\<lambda>_.
     andThen (external (createWorktree a)) (\<lambda>(worktreePath, branchName).
     andThen (storeOp (\<lambda>db. registerWorktree isUrl db sessionId (task_id task) worktreePath)) (\<lambda>_.
     andThen (storeOp (\<lambda>db. registerBranch isUrl db sessionId (task_id task) branchName)) (\<lambda>_.
     andThen (external (buildPrompt a)) (\<lambda>prompt.
     andThen (external (engineExecute a)) (\<lambda>result.
     andThen (external (completionGuard result)) (\<lambda>_.
     andThen (external (if \<not> fast \<and> hasCommands cfg then runValidation cfg a else Inr ())) (\<lambda>_.
     andThen (external (hasUncommittedChanges a)) (\<lambda>hasChanges.
     andThen (if hasChanges
              then andThen (external (commitChanges a)) (\<lambda>_.
                   andThen (external (pushBranch a)) (\<lambda>_.
                     (case truthyString (createPullRequest a) of
                        Some prUrl \<Rightarrow> storeOp (\<lambda>db. registerPR isUrl db sessionId (task_id task) prUrl)
                      | None \<Rightarrow> external (Inr ()))))
              else external (Inr ())) (\<lambda>_.
     storeOp (\<lambda>db. saveCheckpoint isUrl db sessionId (task_id task) Completed
                     (noOptions\<lparr>opt_duration := Some (result_duration result)\<rparr>)
                     (checkpointTime a))))))))))))"

text \<open>The \<open>catch\<close> block: record the error, save a failed checkpoint, raise the error again.\<close>

definition executeTaskCatch ::
  "(string \<Rightarrow> bool) \<Rightarrow> Attempt \<Rightarrow> string \<Rightarrow> Task \<Rightarrow> error \<Rightarrow> unit step" where
  "executeTaskCatch isUrl a sessionId task e =
     andThen (storeOp (\<lambda>db. recordError isUrl db sessionId (task_id task) (error_message e))) (\<lambda>_.
     andThen (storeOp (\<lambda>db. saveCheckpoint isUrl db sessionId (task_id task) Failed
                               (noOptions\<lparr>opt_error := Some (error_message e)\<rparr>)
                               (checkpointTime a))) (\<lambda>_.
     external (Inl e)))"

text \<open>
  \<open>executeTask\<close>: the \<open>beforeTask\<close> hook stands before the \<open>try\<close>, so its failure leaves at
  once; the \<open>afterTask\<close> hook stands in the \<open>finally\<close>. The result is what the call returns
  or raises, the database, and the warnings printed.
\<close>

definition executeTask ::
  "(string \<Rightarrow> bool) \<Rightarrow> ProjectConfig option \<Rightarrow> bool \<Rightarrow> Attempt \<Rightarrow> string \<Rightarrow> Task \<Rightarrow> Database \<Rightarrow>
   ((error + unit) \<times> Database) \<times> string list" where
  "executeTask isUrl cfg fast a sessionId task db =
     (case beforeTask (configHooks cfg) (beforeTaskProc a) of
        Inl e \<Rightarrow> ((Inl e, db), [])
      | Inr _ \<Rightarrow>
          (case executeTaskBody isUrl cfg fast a sessionId task db of
             (Inr _, db1) \<Rightarrow> ((Inr (), db1), afterTask (configHooks cfg) (afterTaskProc a))
           | (Inl e, db1) \<Rightarrow>
               (executeTaskCatch isUrl a sessionId task e db1,
                afterTask (configHooks cfg) (afterTaskProc a))))"

text \<open>
  \<open>executeTaskWithRetry\<close>: attempts 0 to \<open>maxRetries\<close>. \<open>resolveError\<close> stands inside the
  \<open>try\<close>, so its failure is retried as well. Removing the worktree between attempts
  changes nothing in the model (its errors are ignored). \<open>attempts i\<close> is the outside
  world of attempt \<open>i\<close>; the first argument counts the attempts left.
\<close>

definition maxRetries :: nat where
  "maxRetries = 2"

fun retryLoop ::
  "nat \<Rightarrow> (string \<Rightarrow> bool) \<Rightarrow> ProjectConfig option \<Rightarrow> bool \<Rightarrow> (nat \<Rightarrow> Attempt) \<Rightarrow> string \<Rightarrow> Task \<Rightarrow>
   nat \<Rightarrow> error option \<Rightarrow> Database \<Rightarrow> ((error + unit) \<times> Database) \<times> string list" where
  "retryLoop 0 isUrl cfg fast attempts sessionId task attempt lastErr db =
     ((Inl (case lastErr of Some e \<Rightarrow> e | None \<Rightarrow> External ''null''), db), [])"
| "retryLoop (Suc n) isUrl cfg fast attempts sessionId task attempt lastErr db =
     (case executeTask isUrl cfg fast (attempts attempt) sessionId task db of
        ((Inr _, db1), w) \<Rightarrow>
          (case resolveError isUrl db1 sessionId (task_id task) of
             Inr db2 \<Rightarrow> ((Inr (), db2), w)
           | Inl e \<Rightarrow>
               (case retryLoop n isUrl cfg fast attempts sessionId task (Suc attempt) (Some e) db1 of
                  (r, w') \<Rightarrow> (r, w @ w')))
      | ((Inl e, db1), w) \<Rightarrow>
          (case retryLoop n isUrl cfg fast attempts sessionId task (Suc attempt) (Some e) db1 of
             (r, w') \<Rightarrow> (r, w @ w')))"

definition executeTaskWithRetry ::
  "(string \<Rightarrow> bool) \<Rightarrow> ProjectConfig option \<Rightarrow> bool \<Rightarrow> (nat \<Rightarrow> Attempt) \<Rightarrow> string \<Rightarrow> Task \<Rightarrow>
   Database \<Rightarrow> ((error + unit) \<times> Database) \<times> string list" where
  "executeTaskWithRetry isUrl cfg fast attempts sessionId task db =
     retryLoop (Suc maxRetries) isUrl cfg fast attempts sessionId task 0 None db"




subsection \<open>The resume command\<close>

text \<open>
  \<open>ResumeExecutor.executeTask\<close>: no hooks, no validation run, no push, no retry.
\<close>

definition resumeTaskBody ::
  "(string \<Rightarrow> bool) \<Rightarrow> Attempt \<Rightarrow> string \<Rightarrow> Task \<Rightarrow> unit step" where
  "resumeTaskBody isUrl a sessionId task =
     andThen (storeOp (\<lambda>db. startTask isUrl db sessionId (task_id task))) (\<lambda>_.
     andThen (external (createWorktree a)) (\<lambda>(worktreePath, branchName).
     andThen (storeOp (\<lambda>db. registerWorktree isUrl db sessionId (task_id task) worktreePath)) (\<lambda>_.
     andThen (storeOp (\<lambda>db. registerBranch isUrl db sessionId (task_id task) branchName)) (\<lambda>_.
     andThen (external (buildPrompt a)) (\<lambda>prompt.
     andThen (external (engineExecute a)) (\<lambda>result.
     andThen (external (completionGuard result)) (\<lambda>_.
     andThen (external (hasUncommittedChanges a)) (\<lambda>hasChanges.
     andThen (if hasChanges then external (commitChanges a) else external (Inr ())) (\<lambda>_.
     storeOp (\<lambda>db. saveCheckpoint isUrl db sessionId (task_id task) Completed
                     (noOptions\<lparr>opt_duration := Some (result_duration result)\<rparr>)
                     (checkpointTime a)))))))))))"

definition resumeExecuteTask ::
  "(string \<Rightarrow> bool) \<Rightarrow> Attempt \<Rightarrow> string \<Rightarrow> Task \<Rightarrow> unit step" where
  "resumeExecuteTask isUrl a sessionId task db =
     (case resumeTaskBody isUrl a sessionId task db of
        (Inr _, db1) \<Rightarrow> (Inr (), db1)
      | (Inl e, db1) \<Rightarrow> executeTaskCatch isUrl a sessionId task e db1)"

fun resumeExecuteTasks ::
  "(string \<Rightarrow> bool) \<Rightarrow> (string \<Rightarrow> Attempt) \<Rightarrow> string \<Rightarrow> Task list \<Rightarrow> unit step" where
  "resumeExecuteTasks isUrl attempt sessionId [] db = (Inr (), db)"
| "resumeExecuteTasks isUrl attempt sessionId (task # rest) db =
     (case resumeExecuteTask isUrl (attempt (task_id task)) sessionId task db of
        (Inl e, db1) \<Rightarrow> (Inl e, db1)
      | (Inr _, db1) \<Rightarrow> resumeExecuteTasks isUrl attempt sessionId rest db1)"

definition resumeExecute ::
  "(string \<Rightarrow> bool) \<Rightarrow> (string \<Rightarrow> Attempt) \<Rightarrow> string \<Rightarrow> Task list \<Rightarrow> unit step" where
  "resumeExecute isUrl attempt sessionId ts db =
     (case buildExecutionWaves ts of
        Inl e \<Rightarrow> (Inl e, db)
      | Inr waves \<Rightarrow> resumeExecuteTasks isUrl attempt sessionId (concat waves) db)"

text \<open>
  The step of \<open>resumeCommand\<close> that puts an interrupted task back: when \<open>currentTask\<close> is
  set (a non-empty string), it is put at the front of \<open>pendingTasks\<close>, \<open>currentTask\<close>
  becomes \<open>null\<close> and the session is written with \<open>updateSession\<close>.
\<close>

definition requeueInterrupted :: "Database \<Rightarrow> Session \<Rightarrow> Session \<times> Database" where
  "requeueInterrupted db s =
     (case truthyString (currentTask s) of
        Some t \<Rightarrow>
          (let s' = s\<lparr>pendingTasks := t # pendingTasks s, currentTask := None\<rparr>
           in (s', updateSession db s'))
      | None \<Rightarrow> (s, db))"

text \<open>
  \<open>resumeCommand\<close> for a given session id, in sequential mode, from the lookup of the
  session to the end of the run. Its ways out before the run are results of their own;
  \<open>Ended\<close> carries what the \<open>try\<close> block returned or raised.
\<close>

datatype ResumeOutcome =
    NoSessionFound
  | AlreadyCompleted
  | NoTasksFound
  | EngineUnavailable
  | Ended "error + unit"

definition resumeCommand ::
  "(string \<Rightarrow> bool) \<Rightarrow> 'n SpecsDir \<Rightarrow> bool \<Rightarrow> (string \<Rightarrow> Attempt) \<Rightarrow> string \<Rightarrow> Database \<Rightarrow>
   ResumeOutcome \<times> Database" where
  "resumeCommand isUrl specs engineAvailable attempt sessionId db =
     (case getSession isUrl db sessionId of
        Inl e \<Rightarrow> (Ended (Inl e), db)
      | Inr None \<Rightarrow> (NoSessionFound, db)
      | Inr (Some session) \<Rightarrow>
          if pendingTasks session = [] \<and> truthyString (currentTask session) = None
          then (AlreadyCompleted, db)
          else (case requeueInterrupted db session of
                  (session', db1) \<Rightarrow>
                    (let ts = loadRemainingTasks specs (pendingTasks session')
                     in if ts = [] then (NoTasksFound, db1)
                        else if \<not> engineAvailable then (EngineUnavailable, db1)
                        else (case resumeExecute isUrl attempt sessionId ts db1 of
                                (r, db2) \<Rightarrow> (Ended r, db2)))))"

section \<open>Dependency graph and wave vocabulary\<close>

text \<open>
  The dependency graph of a task list, as the scheduler reads it: \<open>dfs\<close> and the wave
  builder look a task up by id in \<open>taskMap\<close>, so an edge leads from an id to each
  dependency of the task stored under it.
\<close>

definition depEdges :: "Task list \<Rightarrow> (string \<times> string) set" where
  "depEdges ts = {(a, b). \<exists>t. taskMap ts a = Some t \<and> b \<in> set (dependencies t)}"

text \<open>
  The nodes \<open>dfs\<close> has left (visited and no longer on the recursion stack) are closed
  under edges and lie on no cycle.
\<close>

definition finished :: "Task list \<Rightarrow> dfs_state \<Rightarrow> bool" where
  "finished ts st \<longleftrightarrow>
     (\<forall>x \<in> fst st - snd st. \<forall>y. (x, y) \<in> depEdges ts \<longrightarrow> y \<in> fst st - snd st)
   \<and> (\<forall>x \<in> fst st - snd st. (x, x) \<notin> (depEdges ts)\<^sup>+)"

text \<open>
  A sequence of waves is layered over \<open>c\<close> when every dependency of a task is in \<open>c\<close>
  or is the id of a task of an earlier wave.
\<close>

fun layered :: "string set \<Rightarrow> Task list list \<Rightarrow> bool" where
  "layered c [] = True"
| "layered c (w # ws) =
     ((\<forall>t \<in> set w. set (dependencies t) \<subseteq> c) \<and> layered (c \<union> task_id ` set w) ws)"

text \<open>\<open>groups.get(groupNum) || []\<close>\<close>

definition groupOf :: "(int \<times> Task list) list \<Rightarrow> int \<Rightarrow> Task list" where
  "groupOf groups g = (case map_of groups g of None \<Rightarrow> [] | Some l \<Rightarrow> l)"

text \<open>
  A valid DAG: ids are unique, every dependency is the id of a task of the list, and the
  dependency graph has no cycle. Parallel groups respect the dependencies when no task
  depends on a task of a higher group.
\<close>

definition validDag :: "Task list \<Rightarrow> bool" where
  "validDag ts \<longleftrightarrow>
     distinct (map task_id ts)
   \<and> (\<forall>t \<in> set ts. set (dependencies t) \<subseteq> task_id ` set ts)
   \<and> acyclic (depEdges ts)"

definition groupsRespectDeps :: "Task list \<Rightarrow> bool" where
  "groupsRespectDeps ts \<longleftrightarrow>
     (\<forall>t \<in> set ts. \<forall>u \<in> set ts.
        task_id u \<in> set (dependencies t) \<longrightarrow> parallelGroup u \<le> parallelGroup t)"

section \<open>Example inputs\<close>

text \<open>
  Concrete inputs on which the theorems are exercised: a session of two tasks as
  \<open>createSession\<close> stores it, engine results, the outside world of an attempt in which
  every collaborator succeeds, and a phase directory with metadata.
\<close>

definition demoRow :: SessionRow where
  "demoRow = \<lparr>row_id = ''s1'', row_project = ''demo'', row_phase = ''p00'', started_at = 1,
              last_checkpoint_at = None, current_task = None, completed_tasks = [],
              failed_tasks = [], pending_tasks = [''T00-001'', ''T00-002''],
              row_worktrees = Map.empty, row_branches = Map.empty, row_prs = Map.empty,
              row_errors = Map.empty\<rparr>"

definition demoDb :: Database where
  "demoDb = \<lparr>sessions = [demoRow], checkpoint_rows = [], checkpoint_seq = 0\<rparr>"

definition demoSession :: Session where
  "demoSession = \<lparr>session_id = ''s1'', project = ''demo'', session_phase = ''p00'', startedAt = 1,
                 lastCheckpointAt = None, currentTask = None, completedTasks = [],
                 failedTasks = [], pendingTasks = [''T00-001'', ''T00-002''], worktrees = Map.empty,
                 branches = Map.empty, prs = Map.empty, checkpoints = [],
                 errors = Map.empty\<rparr>"

definition exampleTask :: "string \<Rightarrow> int \<Rightarrow> string list \<Rightarrow> Task" where
  "exampleTask tid g deps = (minimalTask [] tid)\<lparr>parallelGroup := g, dependencies := deps\<rparr>"


definition okResult :: ExecutionResult where
  "okResult = \<lparr>success = True, result_output = ''<promise>COMPLETE</promise>'',
                       exitCode = 0, result_duration = 1200, completed = True,
                       result_error = None\<rparr>"

definition demoAttempt :: "ExecutionResult \<Rightarrow> nat \<Rightarrow> Attempt" where
  "demoAttempt r t =
     \<lparr>beforeTaskProc = Close (Some 0) [] [], afterTaskProc = Close (Some 0) [] [],
      createWorktree = Inr (''/tmp/wt/demo/00-001'', ''demo/t00-001''),
      buildPrompt = Inr ''Implement the task'',
      engineExecute = Inr r,
      lintProc = Close (Some 0) [] [], testProc = Close (Some 0) [] [],
      hasUncommittedChanges = Inr True, commitChanges = Inr (), pushBranch = Inr (),
      createPullRequest = None, checkpointTime = t\<rparr>"

definition failedResult :: ExecutionResult where
  "failedResult = \<lparr>success = False, result_output = ''error'',
                       exitCode = 1, result_duration = 300, completed = False,
                       result_error = Some ''agent crashed''\<rparr>"

definition retryAttempts :: "nat \<Rightarrow> Attempt" where
  "retryAttempts i = (if i = 0 then demoAttempt failedResult 7 else demoAttempt okResult 9)"

definition demoSpecs :: "nat SpecsDir" where
  "demoSpecs = Some
     [\<lparr>folder_name = ''P00-foundation'', folder_isDirectory = True,
       folder_meta = Some
         [\<lparr>entry_id = ''T00-001'', entry_name = ''setup'', entry_title = ''Setup'',
           entry_estimate = 2, entry_priority = P0, entry_status = Not_started,
           entry_dependencies = []\<rparr>,
          \<lparr>entry_id = ''T00-002'', entry_name = ''build'', entry_title = ''Build'',
           entry_estimate = 4, entry_priority = P1, entry_status = Not_started,
           entry_dependencies = [''T00-001'']\<rparr>],
       folder_entries =
         [\<lparr>dir_name = ''T00-001-setup'', dir_isDirectory = True, yamlTask = None, mdTask = None\<rparr>,
          \<lparr>dir_name = ''T00-002-build'', dir_isDirectory = True,
           yamlTask = Some ((minimalTask [] [])\<lparr>name := ''Build it'', estimate := Some ''1d'',
                              priority := Some P3\<rparr>),
           mdTask = None\<rparr>]\<rparr>]"

text \<open>
  Task lists for the scheduler: a two-task cycle, the same cycle with a dependency on an
  id that is not in the list, an acyclic list with a missing dependency, a valid DAG over
  two parallel groups, and a valid DAG whose first group depends on its second.
\<close>

definition cyclicTasks :: "Task list" where
  "cyclicTasks = [exampleTask ''X'' 1 [''Y''], exampleTask ''Y'' 1 [''X'']]"

definition cyclicUnknownTasks :: "Task list" where
  "cyclicUnknownTasks = [exampleTask ''X'' 1 [''Y'', ''Z''], exampleTask ''Y'' 1 [''X'']]"

definition unknownTasks :: "Task list" where
  "unknownTasks = [exampleTask ''X'' 1 [], exampleTask ''Y'' 1 [''X'', ''Z'']]"

definition layeredTasks :: "Task list" where
  "layeredTasks = [exampleTask ''C'' 2 [''A'', ''B''], exampleTask ''B'' 1 [''A''],
                   exampleTask ''A'' 1 []]"

definition crossGroupTasks :: "Task list" where
  "crossGroupTasks = [exampleTask ''A'' 1 [''B''], exampleTask ''B'' 2 []]"

text \<open>
  The session of the two tasks after a crash in the second: \<open>T00-001\<close> is completed,
  \<open>T00-002\<close> is the current task and nothing is pending. \<open>buildTask\<close> is what \<open>loadTask\<close>
  reads for \<open>T00-002\<close> from \<open>demoSpecs\<close>.
\<close>

definition crashedRow :: SessionRow where
  "crashedRow = demoRow\<lparr>current_task := Some ''T00-002'', completed_tasks := [''T00-001''],
                         pending_tasks := []\<rparr>"

definition crashedDb :: Database where
  "crashedDb = \<lparr>sessions = [crashedRow], checkpoint_rows = [], checkpoint_seq = 0\<rparr>"

definition crashedSession :: Session where
  "crashedSession = demoSession\<lparr>currentTask := Some ''T00-002'',
                                 completedTasks := [''T00-001''], pendingTasks := []\<rparr>"

definition buildTask :: Task where
  "buildTask = (minimalTask [] [])\<lparr>name := ''Build it'', estimate := Some ''1d'',
                  priority := Some P3, task_id := ''T00-002''\<rparr>"

section \<open>Properties of the session store\<close>

lemmas store_defs =
  requireSession_def getSession_def sessionRow_def rowToSession_def phaseOk_def isDigit_def
  updateSession_def writeBack_def startTask_def saveCheckpoint_def saveCheckpointStmts_def
  autocommit_def recordError_def resolveError_def registerWorktree_def registerBranch_def
  registerPR_def truthyString_def truthyNumber_def noOptions_def parseCheckpoint_def

lemmas exec_defs =
  executeTask_def executeTaskBody_def executeTaskCatch_def andThen_def storeOp_def external_def
  completionGuard_def runValidation_def hasCommands_def configHooks_def beforeTask_def
  afterTask_def runHook_def hookCommand_def executeCommand_def

lemma find_row_map:
  assumes "\<And>r. row_id (f r) = row_id r"
  shows "find (\<lambda>r. row_id r = sid) (map (\<lambda>r. if row_id r = sid then f r else r) rows)
         = map_option f (find (\<lambda>r. row_id r = sid) rows)"
  using assms by (induction rows) auto

lemma requireSession_InrD:
  assumes "requireSession isUrl db sid = Inr s"
  shows "\<exists>r. sessionRow db sid = Some r \<and> rowToSession isUrl db r = Inr s \<and> row_id r = sid"
  using assms
  by (auto simp: requireSession_def getSession_def sessionRow_def find_Some_iff
           split: option.splits sum.splits)

lemma requireSession_InrI:
  assumes "sessionRow db sid = Some r" "rowToSession isUrl db r = Inr s"
  shows "requireSession isUrl db sid = Inr s"
  using assms by (simp add: requireSession_def getSession_def)

lemma rowToSession_InrD:
  assumes "rowToSession isUrl db r = Inr s"
  shows "session_id s = row_id r \<and> project s = row_project r \<and> session_phase s = row_phase r
       \<and> startedAt s = started_at r \<and> lastCheckpointAt s = last_checkpoint_at r
       \<and> currentTask s = current_task r \<and> completedTasks s = completed_tasks r
       \<and> failedTasks s = failed_tasks r \<and> pendingTasks s = pending_tasks r
       \<and> worktrees s = row_worktrees r \<and> branches s = row_branches r \<and> prs s = row_prs r
       \<and> errors s = row_errors r \<and> row_project r \<noteq> [] \<and> phaseOk (row_phase r)
       \<and> parseCheckpoints isUrl
             (sort_key cp_timestamp
                (filter (\<lambda>c. cp_session_id c = row_id r) (checkpoint_rows db))) = Inr (checkpoints s)"
  using assms
  by (auto simp: rowToSession_def split: sum.splits if_splits)

lemma sessionRow_exec_UpdateSession:
  "sessionRow (exec (UpdateSession s) db) sid =
     (if session_id s = sid then map_option (writeBack s) (sessionRow db sid)
      else sessionRow db sid)"
proof (cases "session_id s = sid")
  case True
  have "\<And>r. row_id (writeBack s r) = row_id r" by (simp add: writeBack_def)
  from find_row_map[of "writeBack s", OF this] True show ?thesis
    by (simp add: sessionRow_def)
next
  case False
  have "find (\<lambda>r. row_id r = sid) (map (\<lambda>r. if row_id r = session_id s then writeBack s r else r) rows)
        = find (\<lambda>r. row_id r = sid) rows" for rows
    using False by (induction rows) (auto simp: writeBack_def)
  with False show ?thesis by (simp add: sessionRow_def)
qed

lemma sessionRow_exec_InsertCheckpoint:
  "sessionRow (exec (InsertCheckpoint a b c d e f g) db) sid = sessionRow db sid"
  by (simp add: sessionRow_def)

lemma checkpoint_rows_exec_UpdateSession:
  "checkpoint_rows (exec (UpdateSession s) db) = checkpoint_rows db"
  by simp

text \<open>Reading back a session that was just written returns it.\<close>

lemma requireSession_updateSession:
  assumes s: "requireSession isUrl db sid = Inr s"
    and same: "session_id s' = session_id s" "project s' = project s"
      "session_phase s' = session_phase s" "startedAt s' = startedAt s"
      "checkpoints s' = checkpoints s" "Session.more s' = Session.more s"
  shows "requireSession isUrl (updateSession db s') sid = Inr s'"
proof -
  from requireSession_InrD[OF s] obtain r0 where
    r0: "sessionRow db sid = Some r0" "rowToSession isUrl db r0 = Inr s" "row_id r0 = sid"
    by blast
  note d = rowToSession_InrD[OF r0(2)]
  from d r0(3) have sid: "session_id s' = sid" using same by simp
  have row: "sessionRow (updateSession db s') sid = Some (writeBack s' r0)"
    using r0(1) sid by (simp add: updateSession_def sessionRow_exec_UpdateSession del: exec.simps)
  have "rowToSession isUrl (updateSession db s') (writeBack s' r0) = Inr s'"
    using d same by (simp add: rowToSession_def updateSession_def writeBack_def)
  with row show ?thesis by (rule requireSession_InrI)
qed

lemma startTask_effect:
  assumes s: "requireSession isUrl db sid = Inr s"
  shows "startTask isUrl db sid tid =
           Inr (updateSession db (s\<lparr>currentTask := Some tid,
                                     pendingTasks := filter (\<lambda>t. t \<noteq> tid) (pendingTasks s)\<rparr>))
       \<and> requireSession isUrl
            (updateSession db (s\<lparr>currentTask := Some tid,
                                  pendingTasks := filter (\<lambda>t. t \<noteq> tid) (pendingTasks s)\<rparr>)) sid
          = Inr (s\<lparr>currentTask := Some tid,
                   pendingTasks := filter (\<lambda>t. t \<noteq> tid) (pendingTasks s)\<rparr>)"
  using s requireSession_updateSession[OF s, of "s\<lparr>currentTask := Some tid,
                                  pendingTasks := filter (\<lambda>t. t \<noteq> tid) (pendingTasks s)\<rparr>"]
  by (simp add: startTask_def)


lemma saveCheckpoint_effect:
  assumes s: "requireSession isUrl db sid = Inr s"
  shows "\<exists>db'. saveCheckpoint isUrl db sid tid st opts now = Inr db'
          \<and> checkpoint_rows db' = checkpoint_rows db @
               [\<lparr>cp_id = Suc (checkpoint_seq db), cp_session_id = sid, cp_timestamp = now,
                 cp_task_id = tid, cp_row_status = st, pr_link = truthyString (opt_prLink opts),
                 cp_duration = truthyNumber (opt_duration opts),
                 cp_row_error = truthyString (opt_error opts)\<rparr>]
          \<and> (\<exists>r0. sessionRow db sid = Some r0
               \<and> sessionRow db' sid = Some
                 (r0\<lparr>last_checkpoint_at := Some now, current_task := None,
                     completed_tasks := (if st = Completed then completedTasks s @ [tid]
                                         else completedTasks s),
                     failed_tasks := (if st = Failed then failedTasks s @ [tid]
                                      else failedTasks s)\<rparr>))"
proof -
  from requireSession_InrD[OF s] obtain r0 where
    r0: "sessionRow db sid = Some r0" "rowToSession isUrl db r0 = Inr s" "row_id r0 = sid"
    by blast
  note d = rowToSession_InrD[OF r0(2)]
  from d r0(3) have sid: "session_id s = sid" by simp
  let ?s' = "s\<lparr>lastCheckpointAt := Some now, currentTask := None,
           completedTasks := (if st = Completed then completedTasks s @ [tid]
                              else completedTasks s),
           failedTasks := (if st = Completed then failedTasks s
                           else if st = Failed then failedTasks s @ [tid]
                           else failedTasks s)\<rparr>"
  let ?ins = "InsertCheckpoint sid now tid st (truthyString (opt_prLink opts))
        (truthyNumber (opt_duration opts)) (truthyString (opt_error opts))"
  have stmts: "saveCheckpointStmts s sid tid st opts now = [?ins, UpdateSession ?s']"
    by (simp add: saveCheckpointStmts_def)
  let ?db' = "exec (UpdateSession ?s') (exec ?ins db)"
  have res: "saveCheckpoint isUrl db sid tid st opts now = Inr ?db'"
    using s stmts by (simp add: saveCheckpoint_def autocommit_def Let_def del: exec.simps)
  have f0: "sessionRow (exec ?ins db) sid = Some r0"
    using r0(1) by (simp add: sessionRow_exec_InsertCheckpoint del: exec.simps)
  have f: "sessionRow ?db' sid = Some (writeBack ?s' r0)"
    using f0 sid by (simp add: sessionRow_exec_UpdateSession del: exec.simps)
  have w: "writeBack ?s' r0 = r0\<lparr>last_checkpoint_at := Some now, current_task := None,
                     completed_tasks := (if st = Completed then completedTasks s @ [tid]
                                         else completedTasks s),
                     failed_tasks := (if st = Failed then failedTasks s @ [tid]
                                      else failedTasks s)\<rparr>"
    using d by (simp add: writeBack_def)
  have cps: "checkpoint_rows ?db' = checkpoint_rows db @
               [\<lparr>cp_id = Suc (checkpoint_seq db), cp_session_id = sid, cp_timestamp = now,
                 cp_task_id = tid, cp_row_status = st, pr_link = truthyString (opt_prLink opts),
                 cp_duration = truthyNumber (opt_duration opts),
                 cp_row_error = truthyString (opt_error opts)\<rparr>]"
    by simp
  from res f w cps r0(1) show ?thesis by (simp del: exec.simps)
qed

lemma demo_created:
  "createSession emptyDatabase ''s1'' 1 ''demo'' ''p00'' [''T00-001'', ''T00-002'']
   = Inr (demoSession, demoDb)"
  by (simp add: createSession_def emptyDatabase_def demoSession_def demoDb_def demoRow_def)

lemma demo_session: "requireSession isUrl demoDb ''s1'' = Inr demoSession"
  by (simp add: requireSession_def getSession_def sessionRow_def rowToSession_def demoDb_def
        demoRow_def demoSession_def phaseOk_def isDigit_def)

text \<open>
  Claim C9. A call of \<open>saveCheckpoint\<close> with a status other than \<open>completed\<close> and \<open>failed\<close>,
  on a session that can be read, is accepted: it appends the checkpoint row, clears
  \<open>current_task\<close>, sets \<open>last_checkpoint_at\<close> and leaves \<open>completed_tasks\<close>, \<open>failed_tasks\<close>
  and \<open>pending_tasks\<close> as they were. After \<open>startTask\<close> for the same id the id is
  therefore in none of the three lists and is not the current task.
\<close>

theorem saveCheckpoint_other_status:
  assumes st: "st \<noteq> Completed" "st \<noteq> Failed"
    and s: "requireSession isUrl db sid = Inr s"
  shows "(\<exists>db' r. saveCheckpoint isUrl db sid tid st opts now = Inr db'
          \<and> checkpoint_rows db' = checkpoint_rows db @
               [\<lparr>cp_id = Suc (checkpoint_seq db), cp_session_id = sid, cp_timestamp = now,
                 cp_task_id = tid, cp_row_status = st, pr_link = truthyString (opt_prLink opts),
                 cp_duration = truthyNumber (opt_duration opts),
                 cp_row_error = truthyString (opt_error opts)\<rparr>]
          \<and> sessionRow db' sid = Some r
          \<and> current_task r = None \<and> last_checkpoint_at r = Some now
          \<and> completed_tasks r = completedTasks s \<and> failed_tasks r = failedTasks s
          \<and> pending_tasks r = pendingTasks s)
       \<and> (\<exists>db1 db2 r. startTask isUrl db sid tid = Inr db1
          \<and> saveCheckpoint isUrl db1 sid tid st opts now = Inr db2
          \<and> sessionRow db2 sid = Some r
          \<and> current_task r = None
          \<and> tid \<notin> set (pending_tasks r)
          \<and> completed_tasks r = completedTasks s \<and> failed_tasks r = failedTasks s
          \<and> (tid \<notin> set (completedTasks s) \<and> tid \<notin> set (failedTasks s) \<longrightarrow>
               tid \<notin> set (pending_tasks r) \<union> set (completed_tasks r) \<union> set (failed_tasks r)))"
proof -
  from requireSession_InrD[OF s] obtain r0 where
    r0: "sessionRow db sid = Some r0" "rowToSession isUrl db r0 = Inr s" by blast
  note d = rowToSession_InrD[OF r0(2)]
  from saveCheckpoint_effect[OF s, of tid st opts now] r0(1) st d
  have part1: "\<exists>db' r. saveCheckpoint isUrl db sid tid st opts now = Inr db'
          \<and> checkpoint_rows db' = checkpoint_rows db @
               [\<lparr>cp_id = Suc (checkpoint_seq db), cp_session_id = sid, cp_timestamp = now,
                 cp_task_id = tid, cp_row_status = st, pr_link = truthyString (opt_prLink opts),
                 cp_duration = truthyNumber (opt_duration opts),
                 cp_row_error = truthyString (opt_error opts)\<rparr>]
          \<and> sessionRow db' sid = Some r
          \<and> current_task r = None \<and> last_checkpoint_at r = Some now
          \<and> completed_tasks r = completedTasks s \<and> failed_tasks r = failedTasks s
          \<and> pending_tasks r = pendingTasks s"
    by auto
  let ?s1 = "s\<lparr>currentTask := Some tid,
               pendingTasks := filter (\<lambda>t. t \<noteq> tid) (pendingTasks s)\<rparr>"
  let ?db1 = "updateSession db ?s1"
  from startTask_effect[OF s, of tid] have
    st1: "startTask isUrl db sid tid = Inr ?db1" and s1: "requireSession isUrl ?db1 sid = Inr ?s1"
    by simp_all
  from requireSession_InrD[OF s1] obtain r1 where
    r1: "sessionRow ?db1 sid = Some r1" "rowToSession isUrl ?db1 r1 = Inr ?s1" by blast
  note d1 = rowToSession_InrD[OF r1(2)]
  from saveCheckpoint_effect[OF s1, of tid st opts now] r1(1) st d1
  obtain db2 r where
    sc: "saveCheckpoint isUrl ?db1 sid tid st opts now = Inr db2"
    and r: "sessionRow db2 sid = Some r" "current_task r = None"
       "completed_tasks r = completedTasks s" "failed_tasks r = failedTasks s"
       "pending_tasks r = filter (\<lambda>t. t \<noteq> tid) (pendingTasks s)"
    by auto
  from r(5) have np: "tid \<notin> set (pending_tasks r)" by simp
  from st1 sc r np have part2: "\<exists>db1 db2 r. startTask isUrl db sid tid = Inr db1
          \<and> saveCheckpoint isUrl db1 sid tid st opts now = Inr db2
          \<and> sessionRow db2 sid = Some r
          \<and> current_task r = None
          \<and> tid \<notin> set (pending_tasks r)
          \<and> completed_tasks r = completedTasks s \<and> failed_tasks r = failedTasks s
          \<and> (tid \<notin> set (completedTasks s) \<and> tid \<notin> set (failedTasks s) \<longrightarrow>
               tid \<notin> set (pending_tasks r) \<union> set (completed_tasks r) \<union> set (failed_tasks r))"
    by auto
  from part1 part2 show ?thesis by blast
qed

theorem saveCheckpoint_other_status_witness:
  "Blocked \<noteq> Completed \<and> Blocked \<noteq> Failed
   \<and> requireSession (\<lambda>u. True) demoDb ''s1'' = Inr demoSession
   \<and> (\<exists>db1 db2 r. startTask (\<lambda>u. True) demoDb ''s1'' ''T00-001'' = Inr db1
          \<and> saveCheckpoint (\<lambda>u. True) db1 ''s1'' ''T00-001'' Blocked noOptions 7 = Inr db2
          \<and> sessionRow db2 ''s1'' = Some r
          \<and> current_task r = None
          \<and> pending_tasks r = [''T00-002''] \<and> completed_tasks r = [] \<and> failed_tasks r = [])"
proof -
  have a: "Blocked \<noteq> Completed" and b: "Blocked \<noteq> Failed" by simp_all
  have s: "requireSession (\<lambda>u. True) demoDb ''s1'' = Inr demoSession" by (rule demo_session)
  from saveCheckpoint_other_status[OF a b s, of "''T00-001''" noOptions 7]
  obtain db1 db2 r where
    x: "startTask (\<lambda>u. True) demoDb ''s1'' ''T00-001'' = Inr db1"
       "saveCheckpoint (\<lambda>u. True) db1 ''s1'' ''T00-001'' Blocked noOptions 7 = Inr db2"
       "sessionRow db2 ''s1'' = Some r" "current_task r = None"
       "completed_tasks r = completedTasks demoSession" "failed_tasks r = failedTasks demoSession"
    by blast
  have db1: "db1 = updateSession demoDb (demoSession\<lparr>currentTask := Some ''T00-001'',
                   pendingTasks := [''T00-002'']\<rparr>)"
    using x(1) s by (simp add: startTask_def demoSession_def)
  have "pending_tasks r = [''T00-002'']"
    using x(2,3) unfolding db1
    by (auto simp: saveCheckpoint_def requireSession_def getSession_def sessionRow_def
          rowToSession_def updateSession_def demoDb_def demoRow_def demoSession_def phaseOk_def
          isDigit_def writeBack_def saveCheckpointStmts_def autocommit_def noOptions_def
          truthyString_def truthyNumber_def)
  with x a b s show ?thesis by (auto simp: demoSession_def)
qed


text \<open>
  Claim C2. The partition of the task ids does not survive the executor's retry. In the
  run below the engine fails on the first attempt of \<open>T00-001\<close> and completes on the
  second: the first attempt saves a failed checkpoint, the second starts the task again
  without taking it out of \<open>failed_tasks\<close>, and the run ends with the id in both
  \<open>completed_tasks\<close> and \<open>failed_tasks\<close>. Between the two, the id is the current task and
  a failed task at once.
\<close>

theorem retry_breaks_partition:
  "fst (fst (executeTaskWithRetry (\<lambda>u. True) None True retryAttempts ''s1''
               (exampleTask ''T00-001'' 1 []) demoDb)) = Inr ()
   \<and> map_option (\<lambda>r. (current_task r, pending_tasks r, completed_tasks r, failed_tasks r))
        (sessionRow (snd (fst (executeTaskWithRetry (\<lambda>u. True) None True retryAttempts ''s1''
                                 (exampleTask ''T00-001'' 1 []) demoDb))) ''s1'')
      = Some (None, [''T00-002''], [''T00-001''], [''T00-001''])
   \<and> (case startTask (\<lambda>u. True) demoDb ''s1'' ''T00-001'' of
         Inl e \<Rightarrow> None
       | Inr db1 \<Rightarrow>
           (case saveCheckpoint (\<lambda>u. True) db1 ''s1'' ''T00-001'' Failed noOptions 7 of
              Inl e \<Rightarrow> None
            | Inr db2 \<Rightarrow>
                (case startTask (\<lambda>u. True) db2 ''s1'' ''T00-001'' of
                   Inl e \<Rightarrow> None
                 | Inr db3 \<Rightarrow>
                     map_option (\<lambda>r. (current_task r, pending_tasks r, completed_tasks r,
                                        failed_tasks r))
                       (sessionRow db3 ''s1''))))
      = Some (Some ''T00-001'', [''T00-002''], [], [''T00-001''])"
  by (simp add: store_defs exec_defs demoDb_def demoRow_def demoAttempt_def okResult_def
        failedResult_def retryAttempts_def executeTaskWithRetry_def maxRetries_def
        eval_nat_numeral exampleTask_def minimalTask_def)

text \<open>
  Claim C3. \<open>saveCheckpoint\<close> runs its \<open>INSERT\<close> and its \<open>UPDATE\<close> as two statements that
  commit one after the other. Interrupted between them, the call leaves the new
  checkpoint row in the database while the session row is as before (here: nothing
  cleared, nothing added to \<open>completed_tasks\<close>): part of the effects, not all and not none.
  \<open>deleteSession\<close>, which wraps its statements in a transaction, leaves the database as
  it was when interrupted at the same point.
\<close>

theorem saveCheckpoint_not_atomic:
  "saveCheckpointInterrupted (\<lambda>u. True) demoDb ''s1'' ''T00-001'' Completed noOptions 7 1
     = Inr (demoDb\<lparr>checkpoint_rows :=
                     [\<lparr>cp_id = 1, cp_session_id = ''s1'', cp_timestamp = 7,
                       cp_task_id = ''T00-001'', cp_row_status = Completed, pr_link = None,
                       cp_duration = None, cp_row_error = None\<rparr>],
                   checkpoint_seq := 1\<rparr>)
   \<and> saveCheckpoint (\<lambda>u. True) demoDb ''s1'' ''T00-001'' Completed noOptions 7
     = Inr (demoDb\<lparr>checkpoint_rows :=
                     [\<lparr>cp_id = 1, cp_session_id = ''s1'', cp_timestamp = 7,
                       cp_task_id = ''T00-001'', cp_row_status = Completed, pr_link = None,
                       cp_duration = None, cp_row_error = None\<rparr>],
                   checkpoint_seq := 1,
                   sessions := [demoRow\<lparr>last_checkpoint_at := Some 7,
                                         completed_tasks := [''T00-001'']\<rparr>]\<rparr>)
   \<and> saveCheckpointInterrupted (\<lambda>u. True) demoDb ''s1'' ''T00-001'' Completed noOptions 7 0
     = Inr demoDb
   \<and> deleteSessionInterrupted demoDb ''s1'' 1 = demoDb"
  by (simp add: saveCheckpointInterrupted_def deleteSessionInterrupted_def deleteSessionStmts_def
        transaction_def store_defs demoDb_def demoRow_def)

section \<open>Properties of the estimates\<close>

lemma fold_max_ge: "a \<le> fold (\<lambda>task hours. max hours (f task)) w (a::rat)"
proof (induction w arbitrary: a)
  case Nil
  show ?case by simp
next
  case (Cons t w)
  have "a \<le> max a (f t)" by simp
  also have "\<dots> \<le> fold (\<lambda>task hours. max hours (f task)) w (max a (f t))" by (rule Cons.IH)
  finally show ?case by simp
qed

lemma waveHours_drop_zero:
  assumes "parseEstimate (estimate t) = 0"
  shows "waveHours (w1 @ t # w2) = waveHours (w1 @ w2)"
proof -
  have "0 \<le> fold (\<lambda>task hours. max hours (parseEstimate (estimate task))) w1 0"
    by (rule fold_max_ge)
  then show ?thesis using assms by (simp add: waveHours_def max_def)
qed

lemma fold_total_shift:
  "fold (\<lambda>w total. total + waveHours w) ws a = a + fold (\<lambda>w total. total + waveHours w) ws 0"
proof (induction ws arbitrary: a)
  case Nil
  show ?case by simp
next
  case (Cons w ws)
  show ?case using Cons.IH[of "a + waveHours w"] Cons.IH[of "waveHours w"]
    by simp
qed

lemma totalHours_split:
  "totalHours (ws1 @ x # ws2) = totalHours ws1 + waveHours x + totalHours ws2"
  unfolding totalHours_def
  using fold_total_shift[of ws2 "fold (\<lambda>w total. total + waveHours w) ws1 0 + waveHours x"]
  by simp

text \<open>
  Claim C10. A task whose estimate is absent, or does not match the pattern of
  \<open>parseEstimate\<close>, parses to 0 hours; taking it out of its wave changes neither the hours
  of the wave (the maximum over its tasks) nor the total (the sum over the waves).
\<close>

theorem unparseable_estimate_counts_zero:
  assumes "estimate t = None \<or> (\<exists>s. estimate t = Some s \<and> estimatePattern s = None)"
  shows "parseEstimate (estimate t) = 0
       \<and> waveHours (w1 @ t # w2) = waveHours (w1 @ w2)
       \<and> totalHours (ws1 @ (w1 @ t # w2) # ws2) = totalHours (ws1 @ (w1 @ w2) # ws2)"
proof -
  from assms have z: "parseEstimate (estimate t) = 0"
    by (auto simp: parseEstimate_def)
  have w: "waveHours (w1 @ t # w2) = waveHours (w1 @ w2)"
    by (rule waveHours_drop_zero[OF z])
  from z w show ?thesis by (simp only: totalHours_split)
qed

theorem unparseable_estimate_counts_zero_witness:
  "estimatePattern ''3 weeks'' = None
   \<and> parseEstimate (estimate ((exampleTask ''T00-002'' 1 [])\<lparr>estimate := Some ''3 weeks''\<rparr>)) = 0
   \<and> waveHours ([(exampleTask ''T00-001'' 1 [])\<lparr>estimate := Some ''2h''\<rparr>]
                 @ (exampleTask ''T00-002'' 1 [])\<lparr>estimate := Some ''3 weeks''\<rparr> # [])
       = waveHours ([(exampleTask ''T00-001'' 1 [])\<lparr>estimate := Some ''2h''\<rparr>] @ [])
   \<and> waveHours ([(exampleTask ''T00-001'' 1 [])\<lparr>estimate := Some ''2h''\<rparr>] @ []) = 2"
proof -
  have p: "estimatePattern ''3 weeks'' = None" by code_simp
  have h: "waveHours ([(exampleTask ''T00-001'' 1 [])\<lparr>estimate := Some ''2h''\<rparr>] @ []) = 2"
    by code_simp
  from p have "estimate ((exampleTask ''T00-002'' 1 [])\<lparr>estimate := Some ''3 weeks''\<rparr>) = None
     \<or> (\<exists>s. estimate ((exampleTask ''T00-002'' 1 [])\<lparr>estimate := Some ''3 weeks''\<rparr>) = Some s
            \<and> estimatePattern s = None)"
    by simp
  from unparseable_estimate_counts_zero[OF this,
      of "[(exampleTask ''T00-001'' 1 [])\<lparr>estimate := Some ''2h''\<rparr>]" "[]" "[]" "[]"] p h
  show ?thesis by simp
qed

section \<open>Properties of the hook runner and the executor\<close>












lemma andThen_Inr_iff:
  "andThen m f db = (Inr y, db') \<longleftrightarrow> (\<exists>x db1. m db = (Inr x, db1) \<and> f x db1 = (Inr y, db'))"
  by (auto simp: andThen_def split: prod.splits sum.splits)

lemma external_Inr_iff: "external r db = (Inr x, db') \<longleftrightarrow> r = Inr x \<and> db' = db"
  by (auto simp: external_def)



lemma executeTaskCatch_not_Inr: "executeTaskCatch isUrl a sid task e db \<noteq> (Inr u, db')"
  by (auto simp: executeTaskCatch_def andThen_def external_def split: prod.splits sum.splits)





section \<open>Properties of the loader\<close>

lemmas loader_defs =
  loadTask_def loadTasks_def loadPhaseTasks_def loadTaskFromDir_def findPhaseFolder_def
  phaseFolderMatch_def taskPhaseMatch_def taskDirMatch_def validTaskId_def startsWith_def
  minimalTask_def dirSlugMatch_def isLineTerminator_def metaTaskMap_def mergeMeta_def
  statusMap_def toUpperCase_def isDigit_def truthyString_def

text \<open>
  Claim C5. The phase directory \<open>demoSpecs\<close> has valid metadata with an entry for
  \<open>T00-002\<close> (dependencies \<open>T00-001\<close>, estimate 4, priority P1) and a \<open>task.yaml\<close> that
  declares no dependencies, the estimate \<open>1d\<close> and the priority P3. \<open>loadTasks\<close> over the
  phase returns the metadata values. \<open>loadTask\<close> by id, and \<open>loadTasks\<close> with explicit task
  ids, which goes through it, return the values of the task file: \<open>loadTask\<close> never reads
  the metadata.
\<close>

theorem loadTask_ignores_metadata:
  "map (\<lambda>t. (task_id t, dependencies t, estimate t, priority t))
     (loadTasks showNat demoSpecs \<lparr>opt_phase = Some ''p00'', opt_taskIds = None\<rparr>)
     = [(''T00-001'', [], Some ''2h'', Some P0),
        (''T00-002'', [''T00-001''], Some ''4h'', Some P1)]
   \<and> map_option (\<lambda>t. (task_id t, dependencies t, estimate t, priority t))
        (loadTask demoSpecs ''T00-002'')
     = Some (''T00-002'', [], Some ''1d'', Some P3)
   \<and> map (\<lambda>t. (task_id t, dependencies t, estimate t, priority t))
        (loadTasks showNat demoSpecs \<lparr>opt_phase = Some ''p00'', opt_taskIds = Some [''T00-002'']\<rparr>)
     = [(''T00-002'', [], Some ''1d'', Some P3)]
   \<and> map (\<lambda>t. (task_id t, dependencies t, estimate t, priority t))
        (loadRemainingTasks demoSpecs [''T00-002''])
     = [(''T00-002'', [], Some ''1d'', Some P3)]"
  by code_simp

section \<open>Properties of the scheduler\<close>

lemmas sched_defs =
  buildExecutionWaves_def validateDependencies.simps checkDeps.simps
  detectCircularDependencies_def detectLoop.simps dfs.simps dfs_deps.simps taskMap_def
  groupTasks_def buildGroups.simps buildWavesWithDependencies_def buildWavesLoop.simps
  sweep_def depsCompleted_def addWaves.simps exampleTask_def minimalTask_def Let_def

subsection \<open>Cycle detection and dependency validation\<close>

declare dfs.simps [simp del]

lemma depEdgesI: "taskMap ts a = Some t \<Longrightarrow> b \<in> set (dependencies t) \<Longrightarrow> (a, b) \<in> depEdges ts"
  by (auto simp: depEdges_def)

lemma depEdges_None: "taskMap ts a = None \<Longrightarrow> (a, b) \<notin> depEdges ts"
  by (auto simp: depEdges_def)

lemma depEdges_None_trancl: "taskMap ts a = None \<Longrightarrow> (a, b) \<notin> (depEdges ts)\<^sup>+"
  by (auto dest: tranclD simp: depEdges_None)

text \<open>A normal return of the traversal leaves the recursion stack as it found it.\<close>

lemma dfs_in_stack: "tid \<in> s \<Longrightarrow> dfs ts tid path (v, s) = Inl (CircularDependency (path @ [tid]))"
  by (simp add: dfs.simps)

lemma dfs_visited: "tid \<notin> s \<Longrightarrow> tid \<in> v \<Longrightarrow> dfs ts tid path (v, s) = Inr (v, s)"
  by (simp add: dfs.simps)

lemma dfs_unknown:
  "tid \<notin> s \<Longrightarrow> tid \<notin> v \<Longrightarrow> taskMap ts tid = None \<Longrightarrow>
   dfs ts tid path (v, s) = Inr (insert tid v, s)"
  by (simp add: dfs.simps)

lemma dfs_enter:
  "tid \<notin> s \<Longrightarrow> tid \<notin> v \<Longrightarrow> taskMap ts tid = Some task \<Longrightarrow>
   dfs ts tid path (v, s) =
     (case dfs_deps ts (dependencies task) (path @ [tid]) (insert tid v, insert tid s) of
        Inl e \<Rightarrow> Inl e
      | Inr (v', s') \<Rightarrow> Inr (v', s' - {tid}))"
  by (simp add: dfs.simps)

lemma dfs_stack:
  "dfs ts tid path st = Inr st' \<Longrightarrow> snd st' = snd st"
  "dfs_deps ts deps path st = Inr st'' \<Longrightarrow> snd st'' = snd st"
proof (induction ts tid path st and ts deps path st arbitrary: st' and st''
       rule: dfs_dfs_deps.induct)
  case (1 ts tid path visited recursionStack)
  show ?case
  proof (cases "tid \<in> recursionStack")
    case True
    with "1.prems" show ?thesis by (simp add: dfs_in_stack)
  next
    case False
    note notin = this
    show ?thesis
    proof (cases "tid \<in> visited")
      case True
      with notin "1.prems" show ?thesis by (auto simp: dfs_visited)
    next
      case False
      show ?thesis
      proof (cases "taskMap ts tid")
        case None
        with notin False "1.prems" show ?thesis by (auto simp: dfs_unknown)
      next
        case (Some task)
        from "1.prems" obtain v' s' where
          r: "dfs_deps ts (dependencies task) (path @ [tid])
                (insert tid visited, insert tid recursionStack) = Inr (v', s')"
          and st': "st' = (v', s' - {tid})"
          by (auto simp: dfs_enter[OF notin False Some] split: sum.splits prod.splits)
        from "1.IH"[OF notin False Some r] have "s' = insert tid recursionStack" by simp
        with st' notin show ?thesis by auto
      qed
    qed
  qed
next
  case (2 ts path st)
  then show ?case by simp
next
  case (3 ts dep deps path st)
  from "3.prems" obtain st1 where
    a: "dfs ts dep path st = Inr st1" and b: "dfs_deps ts deps path st1 = Inr st''"
    by (auto split: sum.splits)
  from "3.IH"(1)[OF a] "3.IH"(2)[OF a b] show ?case by simp
qed

text \<open>
  Soundness of a reported cycle: when every node on the recursion stack reaches the
  node being entered, a raise reports a path whose last node reaches itself.
\<close>

lemma dfs_raise_cycle:
  "dfs ts tid path st = Inl e \<Longrightarrow> (\<forall>s \<in> snd st. (s, tid) \<in> (depEdges ts)\<^sup>+) \<Longrightarrow>
     snd st \<subseteq> set path \<Longrightarrow>
     \<exists>p x. e = CircularDependency (p @ [x]) \<and> x \<in> set p \<and> (x, x) \<in> (depEdges ts)\<^sup>+"
  "dfs_deps ts deps path st = Inl e \<Longrightarrow>
     (\<forall>s \<in> snd st. \<forall>d \<in> set deps. (s, d) \<in> (depEdges ts)\<^sup>+) \<Longrightarrow>
     snd st \<subseteq> set path \<Longrightarrow>
     \<exists>p x. e = CircularDependency (p @ [x]) \<and> x \<in> set p \<and> (x, x) \<in> (depEdges ts)\<^sup>+"
proof (induction ts tid path st and ts deps path st
       rule: dfs_dfs_deps.induct)
  case (1 ts tid path visited recursionStack)
  show ?case
  proof (cases "tid \<in> recursionStack")
    case True
    with "1.prems" show ?thesis by (auto simp: dfs_in_stack)
  next
    case False
    note notin = this
    show ?thesis
    proof (cases "tid \<in> visited")
      case True
      with notin "1.prems" show ?thesis by (simp add: dfs_visited)
    next
      case False
      show ?thesis
      proof (cases "taskMap ts tid")
        case None
        with notin False "1.prems" show ?thesis by (simp add: dfs_unknown)
      next
        case (Some task)
        from "1.prems"(1)
        have r: "dfs_deps ts (dependencies task) (path @ [tid])
                   (insert tid visited, insert tid recursionStack) = Inl e"
          by (auto simp: dfs_enter[OF notin False Some] split: sum.splits prod.splits)
        have "\<forall>s \<in> insert tid recursionStack. \<forall>d \<in> set (dependencies task).
                (s, d) \<in> (depEdges ts)\<^sup>+"
        proof (intro ballI)
          fix s d assume s: "s \<in> insert tid recursionStack" and d: "d \<in> set (dependencies task)"
          from depEdgesI[OF Some d] have ed: "(tid, d) \<in> depEdges ts" .
          show "(s, d) \<in> (depEdges ts)\<^sup>+"
          proof (cases "s = tid")
            case True
            with ed show ?thesis by auto
          next
            case False
            with s "1.prems"(2) have "(s, tid) \<in> (depEdges ts)\<^sup>+" by auto
            with ed show ?thesis by (auto intro: trancl_into_trancl)
          qed
        qed
        moreover from "1.prems"(3) have "snd (insert tid visited, insert tid recursionStack)
            \<subseteq> set (path @ [tid])" by auto
        ultimately show ?thesis using "1.IH"[OF notin False Some r] by simp
      qed
    qed
  qed
next
  case (2 ts path st)
  then show ?case by simp
next
  case (3 ts dep deps path st)
  show ?case
  proof (cases "dfs ts dep path st")
    case (Inl e')
    with "3.prems" have "dfs ts dep path st = Inl e" by simp
    from "3.IH"(1)[OF this] "3.prems"(2,3) show ?thesis by simp
  next
    case (Inr st1)
    with "3.prems"(1) have b: "dfs_deps ts deps path st1 = Inl e" by simp
    from dfs_stack(1)[OF Inr] have "snd st1 = snd st" .
    with "3.IH"(2)[OF Inr b] "3.prems"(2,3) show ?thesis by simp
  qed
qed

lemma closed_trancl:
  assumes cl: "\<And>x y. x \<in> B \<Longrightarrow> (x, y) \<in> r \<Longrightarrow> y \<in> B"
    and xy: "(x, y) \<in> r\<^sup>*" and x: "x \<in> B"
  shows "y \<in> B"
  using xy
proof (induction rule: rtrancl_induct)
  case base
  show ?case by (rule x)
next
  case (step y z)
  from cl[OF step.IH step.hyps(2)] show ?case .
qed

lemma finishedI:
  assumes a: "\<And>x y. x \<in> v \<Longrightarrow> x \<notin> s \<Longrightarrow> (x, y) \<in> depEdges ts \<Longrightarrow> y \<in> v \<and> y \<notin> s"
    and b: "\<And>x. x \<in> v \<Longrightarrow> x \<notin> s \<Longrightarrow> (x, x) \<notin> (depEdges ts)\<^sup>+"
  shows "finished ts (v, s)"
  unfolding finished_def fst_conv snd_conv
proof (intro conjI ballI allI impI)
  fix x y assume "x \<in> v - s" "(x, y) \<in> depEdges ts"
  with a[of x y] show "y \<in> v - s" by simp
next
  fix x assume "x \<in> v - s"
  with b[of x] show "(x, x) \<notin> (depEdges ts)\<^sup>+" by simp
qed

lemma finishedD1:
  assumes "finished ts (v, s)" "x \<in> v" "x \<notin> s" "(x, y) \<in> depEdges ts"
  shows "y \<in> v \<and> y \<notin> s"
proof -
  from assms(1) have "\<forall>x \<in> v - s. \<forall>y. (x, y) \<in> depEdges ts \<longrightarrow> y \<in> v - s"
    unfolding finished_def fst_conv snd_conv by (rule conjunct1)
  moreover from assms(2,3) have "x \<in> v - s" by simp
  ultimately have "y \<in> v - s" using assms(4) by blast
  then show ?thesis by simp
qed

lemma finishedD2:
  assumes "finished ts (v, s)" "x \<in> v" "x \<notin> s"
  shows "(x, x) \<notin> (depEdges ts)\<^sup>+"
proof -
  from assms(1) have "\<forall>x \<in> v - s. (x, x) \<notin> (depEdges ts)\<^sup>+"
    unfolding finished_def fst_conv snd_conv by (rule conjunct2)
  moreover from assms(2,3) have "x \<in> v - s" by simp
  ultimately show ?thesis by (rule bspec)
qed

lemma finished_add:
  assumes fin: "finished ts (v, insert tid s)"
    and succ: "\<And>y. (tid, y) \<in> depEdges ts \<Longrightarrow> y \<in> v \<and> y \<noteq> tid \<and> y \<notin> s"
    and notin: "tid \<notin> s"
  shows "finished ts (insert tid v, s)"
proof (rule finishedI)
  fix x y assume x: "x \<in> insert tid v" "x \<notin> s" and e: "(x, y) \<in> depEdges ts"
  show "y \<in> insert tid v \<and> y \<notin> s"
  proof (cases "x = tid")
    case True
    with succ[of y] e show ?thesis by simp
  next
    case False
    with x have "x \<in> v" "x \<notin> insert tid s" by simp_all
    from finishedD1[OF fin this e] show ?thesis by simp
  qed
next
  fix x assume x: "x \<in> insert tid v" "x \<notin> s"
  show "(x, x) \<notin> (depEdges ts)\<^sup>+"
  proof (cases "x = tid")
    case False
    with x have "x \<in> v" "x \<notin> insert tid s" by simp_all
    from finishedD2[OF fin this] show ?thesis .
  next
    case True
    have "(tid, tid) \<notin> (depEdges ts)\<^sup>+"
    proof
      assume "(tid, tid) \<in> (depEdges ts)\<^sup>+"
      from tranclD[OF this]
      obtain y where y: "(tid, y) \<in> depEdges ts" "(y, tid) \<in> (depEdges ts)\<^sup>*"
        by blast
      let ?B = "v - insert tid s"
      have cl: "b \<in> ?B" if "a \<in> ?B" "(a, b) \<in> depEdges ts" for a b
        using finishedD1[OF fin _ _ that(2), of ] that(1) by simp
      from succ[OF y(1)] have "y \<in> ?B" by simp
      from closed_trancl[of ?B "depEdges ts", OF cl y(2) this] show False by simp
    qed
    with True show ?thesis by simp
  qed
qed

lemma dfs_finished:
  "dfs ts tid path st = Inr st' \<Longrightarrow> finished ts st \<Longrightarrow>
     fst st \<subseteq> fst st' \<and> tid \<in> fst st' - snd st \<and> finished ts st'"
  "dfs_deps ts deps path st = Inr st'' \<Longrightarrow> finished ts st \<Longrightarrow>
     fst st \<subseteq> fst st'' \<and> set deps \<subseteq> fst st'' - snd st \<and> finished ts st''"
proof (induction ts tid path st and ts deps path st arbitrary: st' and st''
       rule: dfs_dfs_deps.induct)
  case (1 ts tid path visited recursionStack)
  show ?case
  proof (cases "tid \<in> recursionStack")
    case True
    with "1.prems" show ?thesis by (simp add: dfs_in_stack)
  next
    case False
    note notin = this
    show ?thesis
    proof (cases "tid \<in> visited")
      case True
      with notin "1.prems" show ?thesis by (auto simp: dfs_visited)
    next
      case False
      show ?thesis
      proof (cases "taskMap ts tid")
        case None
        from "1.prems"(1) have st': "st' = (insert tid visited, recursionStack)"
          by (simp add: dfs_unknown[OF notin False None])
        have f0: "finished ts (visited, insert tid recursionStack)"
        proof (rule finishedI)
          fix x y assume a: "x \<in> visited" "x \<notin> insert tid recursionStack" "(x, y) \<in> depEdges ts"
          then have "x \<notin> recursionStack" by simp
          from finishedD1[OF "1.prems"(2) a(1) this a(3)] False
          show "y \<in> visited \<and> y \<notin> insert tid recursionStack" by blast
        next
          fix x assume a: "x \<in> visited" "x \<notin> insert tid recursionStack"
          then have "x \<notin> recursionStack" by simp
          from finishedD2[OF "1.prems"(2) a(1) this]
          show "(x, x) \<notin> (depEdges ts)\<^sup>+" .
        qed
        have "finished ts (insert tid visited, recursionStack)"
          by (rule finished_add[OF f0 _ notin]) (simp add: depEdges_None[OF None])
        with st' notin show ?thesis by auto
      next
        case (Some task)
        from "1.prems"(1) obtain v' s' where
          r: "dfs_deps ts (dependencies task) (path @ [tid])
                (insert tid visited, insert tid recursionStack) = Inr (v', s')"
          and st': "st' = (v', s' - {tid})"
          by (auto simp: dfs_enter[OF notin False Some] split: sum.splits prod.splits)
        from dfs_stack(2)[OF r] have s': "s' = insert tid recursionStack" by simp
        have f0: "finished ts (insert tid visited, insert tid recursionStack)"
        proof (rule finishedI)
          fix x y
          assume a: "x \<in> insert tid visited" "x \<notin> insert tid recursionStack"
            "(x, y) \<in> depEdges ts"
          then have b: "x \<in> visited" "x \<notin> recursionStack" by simp_all
          from finishedD1[OF "1.prems"(2) b a(3)] False
          show "y \<in> insert tid visited \<and> y \<notin> insert tid recursionStack" by blast
        next
          fix x assume a: "x \<in> insert tid visited" "x \<notin> insert tid recursionStack"
          then have b: "x \<in> visited" "x \<notin> recursionStack" by simp_all
          from finishedD2[OF "1.prems"(2) b]
          show "(x, x) \<notin> (depEdges ts)\<^sup>+" .
        qed
        from "1.IH"[OF notin False Some r f0] s'
        have sub: "insert tid visited \<subseteq> v'"
          and deps: "set (dependencies task) \<subseteq> v' - insert tid recursionStack"
          and f1: "finished ts (v', insert tid recursionStack)"
          by simp_all
        have succ: "y \<in> v' \<and> y \<noteq> tid \<and> y \<notin> recursionStack" if "(tid, y) \<in> depEdges ts" for y
          using deps Some that by (auto simp: depEdges_def)
        have "finished ts (insert tid v', recursionStack)"
          by (rule finished_add[OF f1 succ notin])
        moreover from sub have "insert tid v' = v'" by auto
        ultimately have "finished ts (v', recursionStack)" by simp
        with st' s' sub notin show ?thesis by auto
      qed
    qed
  qed
next
  case (2 ts path st)
  then show ?case by simp
next
  case (3 ts dep deps path st)
  from "3.prems" obtain st1 where
    a: "dfs ts dep path st = Inr st1" and b: "dfs_deps ts deps path st1 = Inr st''"
    by (auto split: sum.splits)
  from dfs_stack(1)[OF a] have s1: "snd st1 = snd st" .
  from "3.IH"(1)[OF a "3.prems"(2)]
  have x: "fst st \<subseteq> fst st1" "dep \<in> fst st1 - snd st" "finished ts st1" by auto
  from "3.IH"(2)[OF a b x(3)] s1
  have y: "fst st1 \<subseteq> fst st''" "set deps \<subseteq> fst st'' - snd st" "finished ts st''" by auto
  from dfs_stack(2)[OF b] s1 have "snd st'' = snd st" by simp
  with x y show ?case by auto
qed


lemma detectLoop_raise:
  "detectLoop ts rest st = Inl e \<Longrightarrow> snd st = {} \<Longrightarrow>
     \<exists>p x. e = CircularDependency (p @ [x]) \<and> x \<in> set p \<and> (x, x) \<in> (depEdges ts)\<^sup>+"
proof (induction rest arbitrary: st)
  case Nil
  then show ?case by simp
next
  case (Cons task rest)
  show ?case
  proof (cases "task_id task \<in> fst st")
    case True
    with Cons.prems have "detectLoop ts rest st = Inl e" by simp
    from Cons.IH[OF this Cons.prems(2)] show ?thesis .
  next
    case False
    show ?thesis
    proof (cases "dfs ts (task_id task) [] st")
      case (Inl e')
      with False Cons.prems(1) have "dfs ts (task_id task) [] st = Inl e" by simp
      from dfs_raise_cycle(1)[OF this] Cons.prems(2) show ?thesis by simp
    next
      case (Inr st1)
      with False Cons.prems(1) have a: "detectLoop ts rest st1 = Inl e" by simp
      from dfs_stack(1)[OF Inr] Cons.prems(2) have "snd st1 = {}" by simp
      from Cons.IH[OF a this] show ?thesis .
    qed
  qed
qed

lemma detectLoop_finished:
  "detectLoop ts rest st = Inr st' \<Longrightarrow> finished ts st \<Longrightarrow> snd st = {} \<Longrightarrow>
     finished ts st' \<and> snd st' = {} \<and> fst st \<union> task_id ` set rest \<subseteq> fst st'"
proof (induction rest arbitrary: st)
  case Nil
  then show ?case by simp
next
  case (Cons task rest)
  show ?case
  proof (cases "task_id task \<in> fst st")
    case True
    with Cons.prems have "detectLoop ts rest st = Inr st'" by simp
    from Cons.IH[OF this Cons.prems(2,3)] True show ?thesis by auto
  next
    case False
    with Cons.prems(1) obtain st1 where
      a: "dfs ts (task_id task) [] st = Inr st1" and b: "detectLoop ts rest st1 = Inr st'"
      by (auto split: sum.splits)
    from dfs_finished(1)[OF a Cons.prems(2)] Cons.prems(3)
    have x: "fst st \<subseteq> fst st1" "task_id task \<in> fst st1" "finished ts st1" by auto
    from dfs_stack(1)[OF a] Cons.prems(3) have e: "snd st1 = {}" by simp
    from Cons.IH[OF b x(3) e] x show ?thesis by auto
  qed
qed

lemma detect_raise:
  assumes "detectCircularDependencies ts = Inl e"
  shows "\<exists>p x. e = CircularDependency (p @ [x]) \<and> x \<in> set p \<and> (x, x) \<in> (depEdges ts)\<^sup>+"
proof -
  from assms have "detectLoop ts ts ({}, {}) = Inl e"
    by (auto simp: detectCircularDependencies_def split: sum.splits)
  from detectLoop_raise[OF this] show ?thesis by simp
qed

lemma detect_ok_acyclic:
  assumes "detectCircularDependencies ts = Inr u"
  shows "acyclic (depEdges ts)"
proof -
  from assms obtain st' where r: "detectLoop ts ts ({}, {}) = Inr st'"
    by (auto simp: detectCircularDependencies_def split: sum.splits)
  have f0: "finished ts ({}, {})" by (rule finishedI) simp_all
  from detectLoop_finished[OF r f0]
  have f: "finished ts st'" and e: "snd st' = {}" and sub: "task_id ` set ts \<subseteq> fst st'"
    by simp_all
  obtain v where st': "st' = (v, {})" using e by (cases st') simp
  show ?thesis
    unfolding acyclic_def
  proof (intro allI notI)
    fix x assume c: "(x, x) \<in> (depEdges ts)\<^sup>+"
    from tranclD[OF c] obtain y where "(x, y) \<in> depEdges ts" by blast
    then obtain t where "taskMap ts x = Some t" by (auto simp: depEdges_def)
    from taskMap_SomeD[OF this] sub st' have "x \<in> v" by auto
    from finishedD2[OF f[unfolded st'] this] c show False by simp
  qed
qed

lemma detect_iff: "(\<exists>u. detectCircularDependencies ts = Inr u) \<longleftrightarrow> acyclic (depEdges ts)"
proof
  assume "\<exists>u. detectCircularDependencies ts = Inr u"
  then show "acyclic (depEdges ts)" by (auto dest: detect_ok_acyclic)
next
  assume a: "acyclic (depEdges ts)"
  show "\<exists>u. detectCircularDependencies ts = Inr u"
  proof (cases "detectCircularDependencies ts")
    case (Inl e)
    from detect_raise[OF this] a show ?thesis by (auto simp: acyclic_def)
  next
    case (Inr u)
    then show ?thesis by blast
  qed
qed

lemma checkDeps_Inr: "checkDeps ids t ds = Inr u \<longleftrightarrow> set ds \<subseteq> ids"
  by (induction ds) auto

lemma checkDeps_Inl:
  "checkDeps ids t ds = Inl e \<Longrightarrow> \<exists>d \<in> set ds. d \<notin> ids \<and> e = UnknownDependency (task_id t) d"
  by (induction ds) (auto split: if_splits)

lemma validate_Inr:
  "validateDependencies ids ts = Inr u \<longleftrightarrow> (\<forall>t \<in> set ts. set (dependencies t) \<subseteq> ids)"
proof (induction ts)
  case Nil
  show ?case by simp
next
  case (Cons t ts)
  show ?case
  proof (cases "checkDeps ids t (dependencies t)")
    case (Inl e)
    moreover from Inl have "\<not> set (dependencies t) \<subseteq> ids"
      using checkDeps_Inr[of ids t "dependencies t"] by auto
    ultimately show ?thesis by simp
  next
    case (Inr v)
    moreover from Inr have "set (dependencies t) \<subseteq> ids"
      using checkDeps_Inr[of ids t "dependencies t" v] by simp
    ultimately show ?thesis using Cons.IH by simp
  qed
qed

lemma validate_Inl:
  "validateDependencies ids ts = Inl e \<Longrightarrow>
     \<exists>t \<in> set ts. \<exists>d \<in> set (dependencies t). d \<notin> ids \<and> e = UnknownDependency (task_id t) d"
proof (induction ts)
  case Nil
  then show ?case by simp
next
  case (Cons t ts)
  show ?case
  proof (cases "checkDeps ids t (dependencies t)")
    case (Inl e')
    with Cons.prems have "e' = e" by simp
    with checkDeps_Inl[OF Inl] show ?thesis by auto
  next
    case (Inr v)
    with Cons.prems have "validateDependencies ids ts = Inl e" by simp
    from Cons.IH[OF this] show ?thesis by auto
  qed
qed

text \<open>
  Claim C7, as the code has it. \<open>buildExecutionWaves\<close> validates the dependencies before
  it looks for cycles. On every cyclic input whose dependencies are all ids of the input
  it raises \<open>CircularDependency\<close> with a path \<open>p @ [x]\<close> whose last node \<open>x\<close> occurs
  earlier in the path and lies on a cycle of the dependency graph; on every input with a
  dependency outside the input's id set it raises \<open>UnknownDependency\<close> naming a task of
  the input and a dependency of that task that is not an id of the input.
\<close>

theorem scheduler_rejects_bad_graphs:
  "(\<not> acyclic (depEdges ts) \<and> (\<forall>t \<in> set ts. set (dependencies t) \<subseteq> task_id ` set ts) \<longrightarrow>
      (\<exists>p x. buildExecutionWaves ts = Inl (CircularDependency (p @ [x]))
             \<and> x \<in> set p \<and> (x, x) \<in> (depEdges ts)\<^sup>+))
 \<and> ((\<exists>t \<in> set ts. \<not> set (dependencies t) \<subseteq> task_id ` set ts) \<longrightarrow>
      (\<exists>t d. buildExecutionWaves ts = Inl (UnknownDependency (task_id t) d)
             \<and> t \<in> set ts \<and> d \<in> set (dependencies t) \<and> d \<notin> task_id ` set ts))"
proof (intro conjI impI)
  assume a: "\<not> acyclic (depEdges ts) \<and> (\<forall>t \<in> set ts. set (dependencies t) \<subseteq> task_id ` set ts)"
  then have ne: "ts \<noteq> []" by (auto simp: depEdges_def taskMap_def acyclic_def dest: tranclD)
  from a have v: "validateDependencies (set (map task_id ts)) ts = Inr ()"
    using validate_Inr[of "set (map task_id ts)" ts "()"] by simp
  from a detect_iff[of ts] obtain e where d: "detectCircularDependencies ts = Inl e"
    by (cases "detectCircularDependencies ts") auto
  from detect_raise[OF d] obtain p x where
    e: "e = CircularDependency (p @ [x])" "x \<in> set p" "(x, x) \<in> (depEdges ts)\<^sup>+" by blast
  from ne v d e(1) have "buildExecutionWaves ts = Inl (CircularDependency (p @ [x]))"
    by (simp add: buildExecutionWaves_def)
  with e show "\<exists>p x. buildExecutionWaves ts = Inl (CircularDependency (p @ [x]))
             \<and> x \<in> set p \<and> (x, x) \<in> (depEdges ts)\<^sup>+" by blast
next
  assume a: "\<exists>t \<in> set ts. \<not> set (dependencies t) \<subseteq> task_id ` set ts"
  then have ne: "ts \<noteq> []" by auto
  from a obtain e where v: "validateDependencies (set (map task_id ts)) ts = Inl e"
    using validate_Inr[of "set (map task_id ts)" ts]
    by (cases "validateDependencies (set (map task_id ts)) ts") auto
  from validate_Inl[OF v] obtain t d where
    x: "t \<in> set ts" "d \<in> set (dependencies t)" "d \<notin> task_id ` set ts"
       "e = UnknownDependency (task_id t) d" by auto
  from ne v x(4) have "buildExecutionWaves ts = Inl (UnknownDependency (task_id t) d)"
    by (simp add: buildExecutionWaves_def)
  with x show "\<exists>t d. buildExecutionWaves ts = Inl (UnknownDependency (task_id t) d)
             \<and> t \<in> set ts \<and> d \<in> set (dependencies t) \<and> d \<notin> task_id ` set ts" by blast
qed

lemma cyclicTasks_cyclic: "\<not> acyclic (depEdges cyclicTasks)"
proof -
  have "detectCircularDependencies cyclicTasks = Inl (CircularDependency [''X'', ''Y'', ''X''])"
    by (simp add: cyclicTasks_def sched_defs)
  then show ?thesis using detect_iff[of cyclicTasks] by simp
qed

lemma cyclicUnknownTasks_cyclic: "\<not> acyclic (depEdges cyclicUnknownTasks)"
proof -
  have "detectCircularDependencies cyclicUnknownTasks =
          Inl (CircularDependency [''X'', ''Y'', ''X''])"
    by (simp add: cyclicUnknownTasks_def sched_defs)
  then show ?thesis using detect_iff[of cyclicUnknownTasks] by simp
qed

theorem scheduler_rejects_bad_graphs_witness:
  "\<not> acyclic (depEdges cyclicTasks)
   \<and> buildExecutionWaves cyclicTasks = Inl (CircularDependency [''X'', ''Y'', ''X''])
   \<and> (''X'', ''X'') \<in> (depEdges cyclicTasks)\<^sup>+
   \<and> buildExecutionWaves unknownTasks = Inl (UnknownDependency ''Y'' ''Z'')
   \<and> ''Z'' \<notin> task_id ` set unknownTasks"
proof -
  have run: "buildExecutionWaves cyclicTasks = Inl (CircularDependency [''X'', ''Y'', ''X''])"
    by (simp add: cyclicTasks_def sched_defs)
  have pres: "\<forall>t \<in> set cyclicTasks. set (dependencies t) \<subseteq> task_id ` set cyclicTasks"
    by (simp add: cyclicTasks_def exampleTask_def minimalTask_def)
  from scheduler_rejects_bad_graphs[of cyclicTasks] cyclicTasks_cyclic pres
  obtain p x where
    px: "buildExecutionWaves cyclicTasks = Inl (CircularDependency (p @ [x]))"
        "(x, x) \<in> (depEdges cyclicTasks)\<^sup>+"
    by blast
  from px(1) run have "x = ''X''" by auto
  with px(2) have cyc: "(''X'', ''X'') \<in> (depEdges cyclicTasks)\<^sup>+" by simp
  have u: "buildExecutionWaves unknownTasks = Inl (UnknownDependency ''Y'' ''Z'')"
    by (simp add: unknownTasks_def sched_defs)
  have z: "''Z'' \<notin> task_id ` set unknownTasks"
    by (simp add: unknownTasks_def exampleTask_def minimalTask_def)
  from cyclicTasks_cyclic run cyc u z show ?thesis by simp
qed

text \<open>
  The claim as stated fails on a cyclic input that also has a missing dependency:
  validation runs first, so the error is \<open>UnknownDependency\<close>, not \<open>CircularDependency\<close>.
\<close>

theorem cyclic_input_unknown_dependency_counterexample:
  "\<not> acyclic (depEdges cyclicUnknownTasks)
   \<and> buildExecutionWaves cyclicUnknownTasks = Inl (UnknownDependency ''X'' ''Z'')"
  using cyclicUnknownTasks_cyclic by (simp add: cyclicUnknownTasks_def sched_defs)

subsection \<open>Waves\<close>

declare buildWavesLoop.simps [simp del]

lemma layered_append:
  "layered c (xs @ ys) = (layered c xs \<and> layered (c \<union> task_id ` set (concat xs)) ys)"
  by (induction xs arbitrary: c) (auto simp: Un_assoc image_Un)

lemma depsCompleted_iff: "depsCompleted c t \<longleftrightarrow> set (dependencies t) \<subseteq> c"
  by (auto simp: depsCompleted_def list_all_iff)

lemma buildWavesLoop_Inr:
  "buildWavesLoop remaining c waves = Inr result \<Longrightarrow>
     \<exists>new. result = waves @ new \<and> mset (concat new) = mset remaining \<and> [] \<notin> set new
           \<and> layered c new"
proof (induction remaining c waves arbitrary: result rule: buildWavesLoop.induct)
  case (1 remaining c waves)
  show ?case
  proof (cases "remaining = []")
    case True
    with "1.prems" have "result = waves" by (simp add: buildWavesLoop.simps)
    with True show ?thesis by simp
  next
    case False
    let ?wave = "rev (filter (depsCompleted c) remaining)"
    let ?rest = "filter (\<lambda>t. \<not> depsCompleted c t) remaining"
    have sw: "sweep c remaining = (?wave, ?rest)" by (rule sweep_eq)
    have ne: "?wave \<noteq> []"
    proof
      assume e: "?wave = []"
      then have "?rest = remaining" by (simp add: filter_empty_conv)
      with e False "1.prems" sw show False
        by (simp add: buildWavesLoop.simps[of remaining])
    qed
    from "1.prems" False sw ne
    have r: "buildWavesLoop ?rest (c \<union> set (map task_id ?wave)) (waves @ [?wave]) = Inr result"
      by (simp add: buildWavesLoop.simps[of remaining])
    from ne have n2: "\<not> (?wave = [] \<and> ?rest \<noteq> [])" by simp
    from "1.IH"(1)[OF False sw[symmetric] n2 ne r]
    obtain new where new: "result = (waves @ [?wave]) @ new" "mset (concat new) = mset ?rest"
      "[] \<notin> set new" "layered (c \<union> set (map task_id ?wave)) new"
      by blast
    have m: "mset (concat (?wave # new)) = mset remaining"
      using new(2) by simp
    have l: "layered c (?wave # new)"
      using new(4) by (auto simp: depsCompleted_iff)
    from new(1,3) ne m l show ?thesis
      by (intro exI[of _ "?wave # new"]) simp
  qed
qed

lemma addWaves_nonempty:
  "[] \<notin> set gw \<Longrightarrow> addWaves gw c aw = (c \<union> task_id ` set (concat gw), aw @ gw)"
  by (induction gw arbitrary: c aw) (auto simp: image_Un)

lemma buildGroups_Inr:
  "buildGroups groups gs c aw = Inr result \<Longrightarrow>
     \<exists>new. result = aw @ new \<and> mset (concat new) = mset (concat (map (groupOf groups) gs))
           \<and> layered c new"
proof (induction gs arbitrary: c aw)
  case Nil
  then show ?case by simp
next
  case (Cons g gs)
  from Cons.prems obtain gw where
    gw: "buildWavesWithDependencies (groupOf groups g) c = Inr gw"
    by (auto simp: groupOf_def split: sum.splits)
  from buildWavesLoop_Inr[OF gw[unfolded buildWavesWithDependencies_def]]
  have g1: "mset (concat gw) = mset (groupOf groups g)" "[] \<notin> set gw" "layered c gw"
    by auto
  from Cons.prems gw addWaves_nonempty[OF g1(2), of c aw]
  have "buildGroups groups gs (c \<union> task_id ` set (concat gw)) (aw @ gw) = Inr result"
    by (simp add: groupOf_def)
  from Cons.IH[OF this] obtain new where
    new: "result = (aw @ gw) @ new" "mset (concat new) = mset (concat (map (groupOf groups) gs))"
      "layered (c \<union> task_id ` set (concat gw)) new"
    by blast
  from new g1 show ?case
    by (intro exI[of _ "gw @ new"]) (simp add: layered_append)
qed


text \<open>The groups: every parallel group once, with its tasks in input order.\<close>

lemma groupTasks_fold:
  assumes "distinct (map fst groups)"
    and "\<And>g. map_of groups g =
           (if g \<in> parallelGroup ` set seen then Some (filter (\<lambda>t. parallelGroup t = g) seen)
            else None)"
  shows "distinct (map fst (fold (\<lambda>task groups.
             AList.update (parallelGroup task)
               ((case map_of groups (parallelGroup task) of None \<Rightarrow> [] | Some g \<Rightarrow> g) @ [task])
               groups) ts groups))
       \<and> (\<forall>g. map_of (fold (\<lambda>task groups.
             AList.update (parallelGroup task)
               ((case map_of groups (parallelGroup task) of None \<Rightarrow> [] | Some g \<Rightarrow> g) @ [task])
               groups) ts groups) g =
           (if g \<in> parallelGroup ` set (seen @ ts)
            then Some (filter (\<lambda>t. parallelGroup t = g) (seen @ ts)) else None))"
  using assms
proof (induction ts arbitrary: groups seen)
  case Nil
  then show ?case by simp
next
  case (Cons t ts)
  let ?groups' = "AList.update (parallelGroup t)
               ((case map_of groups (parallelGroup t) of None \<Rightarrow> [] | Some g \<Rightarrow> g) @ [t]) groups"
  have d: "distinct (map fst ?groups')" using Cons.prems(1) by (simp add: distinct_update)
  have m: "map_of ?groups' g =
           (if g \<in> parallelGroup ` set (seen @ [t])
            then Some (filter (\<lambda>u. parallelGroup u = g) (seen @ [t])) else None)" for g
  proof (cases "g = parallelGroup t")
    case False
    then show ?thesis using Cons.prems(2)[of g] by (simp add: update_conv')
  next
    case True
    show ?thesis
    proof (cases "parallelGroup t \<in> parallelGroup ` set seen")
      case False
      then have "\<forall>u \<in> set seen. parallelGroup u \<noteq> parallelGroup t"
        by (metis imageI)
      then have "filter (\<lambda>u. parallelGroup u = parallelGroup t) seen = []"
        by (simp add: filter_empty_conv)
      with True False Cons.prems(2)[of g] show ?thesis by (simp add: update_conv')
    next
      case yes: True
      with True Cons.prems(2)[of g] show ?thesis by (simp add: update_conv')
    qed
  qed
  from Cons.IH[of ?groups' "seen @ [t]", OF d m] show ?case by simp
qed

lemma groupTasks_props:
  "distinct (map fst (groupTasks ts))"
  "map_of (groupTasks ts) g =
     (if g \<in> parallelGroup ` set ts then Some (filter (\<lambda>t. parallelGroup t = g) ts) else None)"
  "set (map fst (groupTasks ts)) = parallelGroup ` set ts"
proof -
  have x: "distinct (map fst (groupTasks ts))
       \<and> (\<forall>g. map_of (groupTasks ts) g =
           (if g \<in> parallelGroup ` set ([] @ ts)
            then Some (filter (\<lambda>t. parallelGroup t = g) ([] @ ts)) else None))"
    unfolding groupTasks_def by (rule groupTasks_fold) simp_all
  then show a: "distinct (map fst (groupTasks ts))" by simp
  from x show b: "map_of (groupTasks ts) g =
     (if g \<in> parallelGroup ` set ts then Some (filter (\<lambda>t. parallelGroup t = g) ts) else None)"
    by simp
  have "dom (map_of (groupTasks ts)) = parallelGroup ` set ts"
    using x by (auto simp: dom_def)
  then show "set (map fst (groupTasks ts)) = parallelGroup ` set ts"
    by (simp add: dom_map_of_conv_image_fst)
qed

lemma groupOf_groupTasks:
  "groupOf (groupTasks ts) g = filter (\<lambda>t. parallelGroup t = g) ts"
  by (auto simp: groupOf_def groupTasks_props(2) empty_filter_conv)

lemma mset_groups:
  "distinct gs \<Longrightarrow>
   mset (concat (map (\<lambda>g. filter (\<lambda>t. parallelGroup t = g) ts) gs))
   = mset (filter (\<lambda>t. parallelGroup t \<in> set gs) ts)"
proof (induction gs)
  case Nil
  show ?case by simp
next
  case (Cons g gs)
  have "mset (filter (\<lambda>t. parallelGroup t = g) ts) + mset (filter (\<lambda>t. parallelGroup t \<in> set gs) ts)
        = mset (filter (\<lambda>t. parallelGroup t \<in> set (g # gs)) ts)"
    using Cons.prems by (induction ts) auto
  with Cons show ?case by simp
qed

text \<open>What the layering gives for the waves by position.\<close>

lemma layered_nth:
  "layered c ws \<Longrightarrow> k < length ws \<Longrightarrow> t \<in> set (ws ! k) \<Longrightarrow> d \<in> set (dependencies t) \<Longrightarrow>
     d \<in> c \<or> (\<exists>k' < k. d \<in> task_id ` set (ws ! k'))"
proof (induction ws arbitrary: c k)
  case Nil
  then show ?case by simp
next
  case (Cons w ws)
  show ?case
  proof (cases k)
    case 0
    with Cons.prems show ?thesis by auto
  next
    case (Suc j)
    with Cons.prems have "layered (c \<union> task_id ` set w) ws" "j < length ws" "t \<in> set (ws ! j)"
      by simp_all
    from Cons.IH[OF this Cons.prems(4)]
    have "d \<in> c \<or> d \<in> task_id ` set w \<or> (\<exists>k' < j. d \<in> task_id ` set (ws ! k'))" by blast
    then show ?thesis
    proof (elim disjE)
      assume "d \<in> c" then show ?thesis by simp
    next
      assume "d \<in> task_id ` set w"
      then have "d \<in> task_id ` set ((w # ws) ! 0)" by simp
      with Suc show ?thesis by blast
    next
      assume "\<exists>k' < j. d \<in> task_id ` set (ws ! k')"
      then obtain k' where "k' < j" "d \<in> task_id ` set (ws ! k')" by blast
      then have "Suc k' < k" "d \<in> task_id ` set ((w # ws) ! Suc k')" using Suc by simp_all
      then show ?thesis by blast
    qed
  qed
qed

lemma distinct_concat_nth:
  "distinct (concat xss) \<Longrightarrow> i < j \<Longrightarrow> j < length xss \<Longrightarrow> set (xss ! i) \<inter> set (xss ! j) = {}"
proof (induction xss arbitrary: i j)
  case Nil
  then show ?case by simp
next
  case (Cons xs xss)
  from Cons.prems(2) obtain j' where j: "j = Suc j'" by (cases j) auto
  with Cons.prems(3) have j': "j' < length xss" by simp
  show ?case
  proof (cases i)
    case 0
    from j' have "xss ! j' \<in> set xss" by (rule nth_mem)
    then have "set (xss ! j') \<subseteq> set (concat xss)" by auto
    with Cons.prems(1) 0 j show ?thesis by auto
  next
    case (Suc i')
    with Cons.prems j have "distinct (concat xss)" "i' < j'" by simp_all
    from Cons.IH[OF this j'] Suc j show ?thesis by simp
  qed
qed

lemma buildExecutionWaves_Inr:
  assumes "buildExecutionWaves ts = Inr waves"
  shows "mset (concat waves) = mset ts \<and> layered {} waves"
proof (cases "ts = []")
  case True
  with assms show ?thesis by (simp add: buildExecutionWaves_def)
next
  case False
  let ?gs = "sort (map fst (groupTasks ts))"
  from assms False have "buildGroups (groupTasks ts) ?gs {} [] = Inr waves"
    by (auto simp: buildExecutionWaves_def Let_def split: sum.splits)
  from buildGroups_Inr[OF this] have
    m: "mset (concat waves) = mset (concat (map (groupOf (groupTasks ts)) ?gs))"
    and l: "layered {} waves" by auto
  have d: "distinct ?gs" by (simp add: groupTasks_props(1))
  have s: "set ?gs = parallelGroup ` set ts" using groupTasks_props(3)[of ts] by simp
  have "groupOf (groupTasks ts) = (\<lambda>g. filter (\<lambda>t. parallelGroup t = g) ts)"
    by (rule ext) (rule groupOf_groupTasks)
  moreover have "filter (\<lambda>t. parallelGroup t \<in> set ?gs) ts = ts"
    unfolding s by (rule filter_True) simp
  ultimately have "mset (concat waves) = mset ts"
    using m mset_groups[OF d, of ts] by simp
  with l show ?thesis by simp
qed

lemma taskMap_distinct:
  assumes "distinct (map task_id ts)" "t \<in> set ts"
  shows "taskMap ts (task_id t) = Some t"
proof -
  have "distinct (map fst (rev (map (\<lambda>t. (task_id t, t)) ts)))"
    using assms(1) by (simp add: rev_map[symmetric] comp_def)
  moreover have "(task_id t, t) \<in> set (rev (map (\<lambda>t. (task_id t, t)) ts))"
    using assms(2) by auto
  ultimately show ?thesis unfolding taskMap_eq by (rule map_of_is_SomeI)
qed

lemma depEdges_distinct:
  assumes "distinct (map task_id ts)" "t \<in> set ts" "d \<in> set (dependencies t)"
  shows "(task_id t, d) \<in> depEdges ts"
  using depEdgesI[OF taskMap_distinct[OF assms(1,2)] assms(3)] .

lemma finite_depEdges: "finite (depEdges ts)"
proof -
  have "depEdges ts \<subseteq> (\<Union>t \<in> set ts. {task_id t} \<times> set (dependencies t))"
    by (auto simp: depEdges_def dest: taskMap_SomeD)
  moreover have "finite (\<Union>t \<in> set ts. {task_id t} \<times> set (dependencies t))" by simp
  ultimately show ?thesis by (rule finite_subset)
qed

lemma buildWavesLoop_Inl:
  "buildWavesLoop remaining c waves = Inl e \<Longrightarrow> \<exists>r. e = UnschedulableTasks r \<and> r \<noteq> []"
proof (induction remaining c waves rule: buildWavesLoop.induct)
  case (1 remaining c waves)
  show ?case
  proof (cases "remaining = []")
    case True
    with "1.prems" show ?thesis by (simp add: buildWavesLoop.simps)
  next
    case False
    let ?wave = "rev (filter (depsCompleted c) remaining)"
    let ?rest = "filter (\<lambda>t. \<not> depsCompleted c t) remaining"
    have sw: "sweep c remaining = (?wave, ?rest)" by (rule sweep_eq)
    show ?thesis
    proof (cases "?wave = []")
      case True
      then have "?rest = remaining" by (simp add: filter_empty_conv)
      with True False "1.prems" sw show ?thesis
        by (auto simp add: buildWavesLoop.simps[of remaining])
    next
      case ne: False
      from "1.prems" False sw ne
      have r: "buildWavesLoop ?rest (c \<union> set (map task_id ?wave)) (waves @ [?wave]) = Inl e"
        by (simp add: buildWavesLoop.simps[of remaining])
      from ne have n2: "\<not> (?wave = [] \<and> ?rest \<noteq> [])" by simp
      from "1.IH"(1)[OF False sw[symmetric] n2 ne r] show ?thesis .
    qed
  qed
qed

lemma buildGroups_Inl:
  "buildGroups groups gs c aw = Inl e \<Longrightarrow> \<exists>r. e = UnschedulableTasks r \<and> r \<noteq> []"
proof (induction gs arbitrary: c aw)
  case Nil
  then show ?case by simp
next
  case (Cons g gs)
  show ?case
  proof (cases "buildWavesWithDependencies (groupOf groups g) c")
    case (Inl e')
    with Cons.prems have "e' = e" by (simp add: groupOf_def)
    with Inl buildWavesLoop_Inl[of "groupOf groups g" c "[]" e] show ?thesis
      by (simp add: buildWavesWithDependencies_def)
  next
    case (Inr gw)
    with Cons.prems obtain c' aw' where "buildGroups groups gs c' aw' = Inl e"
      by (auto simp: groupOf_def split: prod.splits)
    from Cons.IH[OF this] show ?thesis .
  qed
qed

lemma buildWavesLoop_total:
  assumes wf: "wf ((depEdges ts)\<inverse>)"
  shows "(\<forall>t \<in> set remaining. \<forall>d \<in> set (dependencies t).
            (task_id t, d) \<in> depEdges ts \<and> (d \<in> c \<or> d \<in> task_id ` set remaining)) \<Longrightarrow>
         \<exists>r. buildWavesLoop remaining c waves = Inr r"
proof (induction remaining c waves rule: buildWavesLoop.induct)
  case (1 remaining c waves)
  show ?case
  proof (cases "remaining = []")
    case True
    then show ?thesis by (simp add: buildWavesLoop.simps)
  next
    case False
    let ?wave = "rev (filter (depsCompleted c) remaining)"
    let ?rest = "filter (\<lambda>t. \<not> depsCompleted c t) remaining"
    have sw: "sweep c remaining = (?wave, ?rest)" by (rule sweep_eq)
    from False obtain t0 where "t0 \<in> set remaining" by (cases remaining) auto
    then have "task_id t0 \<in> task_id ` set remaining" by simp
    from wfE_min[OF wf this] obtain z where
      z: "z \<in> task_id ` set remaining"
         "\<And>y. (y, z) \<in> (depEdges ts)\<inverse> \<Longrightarrow> y \<notin> task_id ` set remaining"
      by blast
    from z(1) obtain t where t: "t \<in> set remaining" "z = task_id t" by auto
    have "depsCompleted c t"
      unfolding depsCompleted_iff
    proof
      fix d assume d: "d \<in> set (dependencies t)"
      with "1.prems" t(1) have e: "(task_id t, d) \<in> depEdges ts"
        and o: "d \<in> c \<or> d \<in> task_id ` set remaining" by auto
      from e t(2) have "(d, z) \<in> (depEdges ts)\<inverse>" by simp
      from z(2)[OF this] o show "d \<in> c" by simp
    qed
    with t(1) have ne: "?wave \<noteq> []" by (auto simp: filter_empty_conv)
    then have n2: "\<not> (?wave = [] \<and> ?rest \<noteq> [])" by simp
    have pre: "\<forall>t \<in> set ?rest. \<forall>d \<in> set (dependencies t).
            (task_id t, d) \<in> depEdges ts
          \<and> (d \<in> c \<union> set (map task_id ?wave) \<or> d \<in> task_id ` set ?rest)"
    proof (intro ballI)
      fix t d assume a: "t \<in> set ?rest" "d \<in> set (dependencies t)"
      then have "t \<in> set remaining" by simp
      with "1.prems" a(2) have e: "(task_id t, d) \<in> depEdges ts"
        and o: "d \<in> c \<or> d \<in> task_id ` set remaining" by auto
      have "task_id ` set remaining \<subseteq> set (map task_id ?wave) \<union> task_id ` set ?rest"
        by auto
      with e o show "(task_id t, d) \<in> depEdges ts
          \<and> (d \<in> c \<union> set (map task_id ?wave) \<or> d \<in> task_id ` set ?rest)"
        by blast
    qed
    from "1.IH"(1)[OF False sw[symmetric] n2 ne pre] obtain r where
      "buildWavesLoop ?rest (c \<union> set (map task_id ?wave)) (waves @ [?wave]) = Inr r" by blast
    with False sw ne show ?thesis
      by (simp add: buildWavesLoop.simps[of remaining])
  qed
qed

lemma buildGroups_total:
  assumes wf: "wf ((depEdges ts)\<inverse>)"
    and dist: "distinct (map task_id ts)"
    and present: "\<forall>t \<in> set ts. set (dependencies t) \<subseteq> task_id ` set ts"
    and mono: "groupsRespectDeps ts"
  shows "sorted gs \<Longrightarrow> distinct gs \<Longrightarrow>
         (\<forall>t \<in> set ts. parallelGroup t \<notin> set gs \<longrightarrow> task_id t \<in> c) \<Longrightarrow>
         \<exists>r. buildGroups (groupTasks ts) gs c aw = Inr r"
proof (induction gs arbitrary: c aw)
  case Nil
  show ?case by simp
next
  case (Cons g gs)
  let ?G = "filter (\<lambda>t. parallelGroup t = g) ts"
  have G: "groupOf (groupTasks ts) g = ?G" by (rule groupOf_groupTasks)
  have pre: "\<forall>t \<in> set ?G. \<forall>d \<in> set (dependencies t).
            (task_id t, d) \<in> depEdges ts \<and> (d \<in> c \<or> d \<in> task_id ` set ?G)"
  proof (intro ballI)
    fix t d assume a: "t \<in> set ?G" "d \<in> set (dependencies t)"
    then have t: "t \<in> set ts" "parallelGroup t = g" by simp_all
    from depEdges_distinct[OF dist t(1) a(2)] have e: "(task_id t, d) \<in> depEdges ts" .
    from present t(1) a(2) obtain u where u: "u \<in> set ts" "d = task_id u" by auto
    with mono t(1) a(2) have le: "parallelGroup u \<le> g"
      unfolding groupsRespectDeps_def using t(2) by blast
    have "d \<in> c \<or> d \<in> task_id ` set ?G"
    proof (cases "parallelGroup u = g")
      case True
      with u show ?thesis by simp
    next
      case False
      with le have "parallelGroup u < g" by simp
      with Cons.prems(1) have "parallelGroup u \<notin> set (g # gs)" by auto
      with Cons.prems(3) u show ?thesis by blast
    qed
    with e show "(task_id t, d) \<in> depEdges ts \<and> (d \<in> c \<or> d \<in> task_id ` set ?G)" by simp
  qed
  from buildWavesLoop_total[OF wf pre, of "[]"] obtain gw where
    gw: "buildWavesLoop ?G c [] = Inr gw" by blast
  from buildWavesLoop_Inr[OF gw]
  have g1: "mset (concat gw) = mset ?G" "[] \<notin> set gw" by auto
  from g1(1) have sG: "set (concat gw) = set ?G" by (rule mset_eq_setD)
  have "\<forall>t \<in> set ts. parallelGroup t \<notin> set gs \<longrightarrow> task_id t \<in> c \<union> task_id ` set (concat gw)"
  proof (intro ballI impI)
    fix t assume a: "t \<in> set ts" "parallelGroup t \<notin> set gs"
    show "task_id t \<in> c \<union> task_id ` set (concat gw)"
    proof (cases "parallelGroup t = g")
      case True
      with a(1) have "t \<in> set ?G" by simp
      with sG show ?thesis by blast
    next
      case False
      with a Cons.prems(3) show ?thesis by simp
    qed
  qed
  moreover from Cons.prems(1,2) have "sorted gs" "distinct gs" by simp_all
  ultimately obtain r where
    "buildGroups (groupTasks ts) gs (c \<union> task_id ` set (concat gw)) (aw @ gw) = Inr r"
    using Cons.IH by blast
  with gw G addWaves_nonempty[OF g1(2), of c aw] show ?case
    by (simp add: buildWavesWithDependencies_def groupOf_def)
qed

text \<open>
  Claim C1, as the code has it. On a valid DAG whose parallel groups respect the
  dependencies \<open>buildExecutionWaves\<close> returns waves. Whenever it returns waves on a valid
  DAG, the waves hold exactly the tasks of the input (as a multiset), are pairwise
  disjoint, every dependency of a task of wave \<open>k\<close> is the id of a task of an earlier
  wave, and no task of a wave depends on a task of the same wave. When it fails on a
  valid DAG, the groups do not respect the dependencies and the error is
  \<open>UnschedulableTasks\<close> with the ids that could not be placed.
\<close>

theorem waves_of_valid_dag:
  assumes "validDag ts"
  shows "(groupsRespectDeps ts \<longrightarrow> (\<exists>waves. buildExecutionWaves ts = Inr waves))
       \<and> (\<forall>waves. buildExecutionWaves ts = Inr waves \<longrightarrow>
              mset (concat waves) = mset ts
            \<and> (\<forall>i j. i < j \<and> j < length waves \<longrightarrow> set (waves ! i) \<inter> set (waves ! j) = {})
            \<and> (\<forall>k < length waves. \<forall>t \<in> set (waves ! k). \<forall>d \<in> set (dependencies t).
                  \<exists>k' < k. d \<in> task_id ` set (waves ! k'))
            \<and> (\<forall>w \<in> set waves. \<forall>t \<in> set w. \<forall>u \<in> set w.
                  task_id u \<notin> set (dependencies t)))
       \<and> (\<forall>e. buildExecutionWaves ts = Inl e \<longrightarrow>
              \<not> groupsRespectDeps ts \<and> (\<exists>r. r \<noteq> [] \<and> e = UnschedulableTasks r))"
proof -
  from assms have dist: "distinct (map task_id ts)"
    and present: "\<forall>t \<in> set ts. set (dependencies t) \<subseteq> task_id ` set ts"
    and acyc: "acyclic (depEdges ts)"
    by (simp_all add: validDag_def)
  from dist have dts: "distinct ts" and inj: "inj_on task_id (set ts)"
    by (simp_all add: distinct_map)
  from present have val: "validateDependencies (set (map task_id ts)) ts = Inr ()"
    by (simp add: validate_Inr)
  from acyc have det: "detectCircularDependencies ts = Inr ()"
    using detect_iff[of ts] by simp
  let ?gs = "sort (map fst (groupTasks ts))"
  have run: "buildExecutionWaves ts = buildGroups (groupTasks ts) ?gs {} []" if "ts \<noteq> []"
    using that val det by (simp add: buildExecutionWaves_def Let_def)
  have total: "\<exists>waves. buildExecutionWaves ts = Inr waves" if mono: "groupsRespectDeps ts"
  proof (cases "ts = []")
    case True
    then show ?thesis by (simp add: buildExecutionWaves_def)
  next
    case False
    have wf: "wf ((depEdges ts)\<inverse>)"
      using finite_depEdges acyc by (rule finite_acyclic_wf_converse)
    have "set ?gs = parallelGroup ` set ts" using groupTasks_props(3)[of ts] by simp
    then have c: "\<forall>t \<in> set ts. parallelGroup t \<notin> set ?gs \<longrightarrow> task_id t \<in> {}" by blast
    have "sorted ?gs" "distinct ?gs" by (simp_all add: groupTasks_props(1))
    from buildGroups_total[OF wf dist present mono this c] run[OF False]
    show ?thesis by simp
  qed
  have props: "mset (concat waves) = mset ts
            \<and> (\<forall>i j. i < j \<and> j < length waves \<longrightarrow> set (waves ! i) \<inter> set (waves ! j) = {})
            \<and> (\<forall>k < length waves. \<forall>t \<in> set (waves ! k). \<forall>d \<in> set (dependencies t).
                  \<exists>k' < k. d \<in> task_id ` set (waves ! k'))
            \<and> (\<forall>w \<in> set waves. \<forall>t \<in> set w. \<forall>u \<in> set w.
                  task_id u \<notin> set (dependencies t))"
    if r: "buildExecutionWaves ts = Inr waves" for waves
  proof -
    from buildExecutionWaves_Inr[OF r]
    have m: "mset (concat waves) = mset ts" and l: "layered {} waves" by simp_all
    from m dts have dc: "distinct (concat waves)" by (metis mset_eq_imp_distinct_iff)
    from m have sc: "set (concat waves) = set ts" by (rule mset_eq_setD)
    have disj: "set (waves ! i) \<inter> set (waves ! j) = {}" if "i < j" "j < length waves" for i j
      using distinct_concat_nth[OF dc that] .
    have deps: "\<exists>k' < k. d \<in> task_id ` set (waves ! k')"
      if "k < length waves" "t \<in> set (waves ! k)" "d \<in> set (dependencies t)" for k t d
      using layered_nth[OF l that] by simp
    have intra: "task_id u \<notin> set (dependencies t)"
      if w: "w \<in> set waves" and t: "t \<in> set w" and u: "u \<in> set w" for w t u
    proof
      assume e: "task_id u \<in> set (dependencies t)"
      from w obtain k where k: "k < length waves" "w = waves ! k"
        by (auto simp: in_set_conv_nth)
      from deps[OF k(1) t[unfolded k(2)] e] obtain k' v where
        k': "k' < k" and v: "v \<in> set (waves ! k')" "task_id v = task_id u" by auto
      from k' k(1) have "k' < length waves" by simp
      then have "waves ! k' \<in> set waves" by (rule nth_mem)
      then have "set (waves ! k') \<subseteq> set (concat waves)" by auto
      with v(1) sc have vt: "v \<in> set ts" by blast
      from w u sc have ut: "u \<in> set ts" by auto
      from inj vt ut v(2) have "v = u" by (auto dest: inj_onD)
      with v(1) u k(2) have "u \<in> set (waves ! k') \<inter> set (waves ! k)" by simp
      with disj[OF k' k(1)] show False by simp
    qed
    from m disj deps intra show ?thesis by blast
  qed
  have fails: "\<not> groupsRespectDeps ts \<and> (\<exists>r. r \<noteq> [] \<and> e = UnschedulableTasks r)"
    if l: "buildExecutionWaves ts = Inl e" for e
  proof -
    from l total have n: "\<not> groupsRespectDeps ts" by auto
    from l have "ts \<noteq> []" by (auto simp: buildExecutionWaves_def)
    from run[OF this] l have "buildGroups (groupTasks ts) ?gs {} [] = Inl e" by simp
    from buildGroups_Inl[OF this] n show ?thesis by blast
  qed
  from total props fails show ?thesis by blast
qed

lemma layeredTasks_run:
  "buildExecutionWaves layeredTasks =
     Inr [[exampleTask ''A'' 1 []], [exampleTask ''B'' 1 [''A'']],
          [exampleTask ''C'' 2 [''A'', ''B'']]]"
  by (simp add: layeredTasks_def sched_defs)

lemma layeredTasks_valid: "validDag layeredTasks"
proof -
  have "detectCircularDependencies layeredTasks = Inr ()"
    by (simp add: layeredTasks_def sched_defs)
  then have "acyclic (depEdges layeredTasks)" using detect_iff[of layeredTasks] by simp
  then show ?thesis by (simp add: validDag_def layeredTasks_def exampleTask_def minimalTask_def)
qed

lemma layeredTasks_groups: "groupsRespectDeps layeredTasks"
  by (simp add: groupsRespectDeps_def layeredTasks_def exampleTask_def minimalTask_def)

theorem waves_of_valid_dag_witness:
  "validDag layeredTasks \<and> groupsRespectDeps layeredTasks
   \<and> buildExecutionWaves layeredTasks =
       Inr [[exampleTask ''A'' 1 []], [exampleTask ''B'' 1 [''A'']],
            [exampleTask ''C'' 2 [''A'', ''B'']]]
   \<and> mset (concat [[exampleTask ''A'' 1 []], [exampleTask ''B'' 1 [''A'']],
            [exampleTask ''C'' 2 [''A'', ''B'']]]) = mset layeredTasks"
proof -
  from waves_of_valid_dag[OF layeredTasks_valid]
  have "\<forall>waves. buildExecutionWaves layeredTasks = Inr waves \<longrightarrow>
          mset (concat waves) = mset layeredTasks"
    by blast
  with layeredTasks_run
  have "mset (concat [[exampleTask ''A'' 1 []], [exampleTask ''B'' 1 [''A'']],
            [exampleTask ''C'' 2 [''A'', ''B'']]]) = mset layeredTasks"
    by blast
  with layeredTasks_valid layeredTasks_groups layeredTasks_run show ?thesis by blast
qed

text \<open>
  The claim as stated fails on a valid DAG in which a task of group 1 depends on a task
  of group 2: the groups are taken in ascending order, no task of group 1 is eligible,
  and the scheduler raises \<open>UnschedulableTasks\<close> instead of returning waves.
\<close>

lemma crossGroupTasks_valid: "validDag crossGroupTasks"
proof -
  have "detectCircularDependencies crossGroupTasks = Inr ()"
    by (simp add: crossGroupTasks_def sched_defs)
  then have "acyclic (depEdges crossGroupTasks)" using detect_iff[of crossGroupTasks] by simp
  then show ?thesis by (simp add: validDag_def crossGroupTasks_def exampleTask_def minimalTask_def)
qed

theorem valid_dag_unschedulable_counterexample:
  "validDag crossGroupTasks
   \<and> buildExecutionWaves crossGroupTasks = Inl (UnschedulableTasks [''A''])"
  using crossGroupTasks_valid by (simp add: crossGroupTasks_def sched_defs)

section \<open>Properties of the resume command\<close>

lemma requireSession_Inr_iff:
  "requireSession isUrl db sid = Inr s \<longleftrightarrow> getSession isUrl db sid = Inr (Some s)"
  by (auto simp: requireSession_def split: sum.splits option.splits)

lemma storeOp_Inr_iff: "storeOp f db = (Inr u, db') \<longleftrightarrow> f db = Inr db'"
  by (auto simp: storeOp_def split: sum.splits)

lemma parseCheckpoints_Inr_iff:
  "(\<exists>cs. parseCheckpoints isUrl cps = Inr cs) \<longleftrightarrow>
   (\<forall>cp \<in> set cps. \<exists>c. parseCheckpoint isUrl cp = Inr c)"
  by (induction cps) (auto split: sum.splits)

lemma startTask_Inr:
  assumes "startTask isUrl db sid tid = Inr db'"
  shows "\<exists>s. requireSession isUrl db sid = Inr s
           \<and> requireSession isUrl db' sid
               = Inr (s\<lparr>currentTask := Some tid,
                        pendingTasks := filter (\<lambda>t. t \<noteq> tid) (pendingTasks s)\<rparr>)"
proof -
  from assms obtain s where s: "requireSession isUrl db sid = Inr s"
    by (auto simp: startTask_def split: sum.splits)
  from startTask_effect[OF s, of tid] assms s show ?thesis by auto
qed

lemma registerWorktree_Inr:
  assumes "registerWorktree isUrl db sid tid p = Inr db'"
  shows "\<exists>s. requireSession isUrl db sid = Inr s
           \<and> requireSession isUrl db' sid = Inr (s\<lparr>worktrees := (worktrees s)(tid \<mapsto> p)\<rparr>)"
proof -
  from assms obtain s where s: "requireSession isUrl db sid = Inr s"
    by (auto simp: registerWorktree_def split: sum.splits)
  from requireSession_updateSession[OF s, of "s\<lparr>worktrees := (worktrees s)(tid \<mapsto> p)\<rparr>"]
    assms s
  show ?thesis by (auto simp: registerWorktree_def)
qed

lemma registerBranch_Inr:
  assumes "registerBranch isUrl db sid tid b = Inr db'"
  shows "\<exists>s. requireSession isUrl db sid = Inr s
           \<and> requireSession isUrl db' sid = Inr (s\<lparr>branches := (branches s)(tid \<mapsto> b)\<rparr>)"
proof -
  from assms obtain s where s: "requireSession isUrl db sid = Inr s"
    by (auto simp: registerBranch_def split: sum.splits)
  from requireSession_updateSession[OF s, of "s\<lparr>branches := (branches s)(tid \<mapsto> b)\<rparr>"]
    assms s
  show ?thesis by (auto simp: registerBranch_def)
qed

lemma saveCheckpoint_Inr:
  assumes r: "saveCheckpoint isUrl db sid tid st opts now = Inr db'"
    and pl: "opt_prLink opts = None"
  shows "\<exists>s s'. requireSession isUrl db sid = Inr s \<and> requireSession isUrl db' sid = Inr s'
           \<and> completedTasks s' = (if st = Completed then completedTasks s @ [tid]
                                    else completedTasks s)
           \<and> pendingTasks s' = pendingTasks s \<and> currentTask s' = None"
proof -
  from r obtain s where s: "requireSession isUrl db sid = Inr s"
    by (auto simp: saveCheckpoint_def split: sum.splits)
  from requireSession_InrD[OF s] obtain r0 where
    r0: "sessionRow db sid = Some r0" "rowToSession isUrl db r0 = Inr s" "row_id r0 = sid"
    by blast
  note d = rowToSession_InrD[OF r0(2)]
  let ?new = "\<lparr>cp_id = Suc (checkpoint_seq db), cp_session_id = sid, cp_timestamp = now,
                 cp_task_id = tid, cp_row_status = st, pr_link = truthyString (opt_prLink opts),
                 cp_duration = truthyNumber (opt_duration opts),
                 cp_row_error = truthyString (opt_error opts)\<rparr>"
  let ?r1 = "r0\<lparr>last_checkpoint_at := Some now, current_task := None,
                     completed_tasks := (if st = Completed then completedTasks s @ [tid]
                                         else completedTasks s),
                     failed_tasks := (if st = Failed then failedTasks s @ [tid]
                                      else failedTasks s)\<rparr>"
  from saveCheckpoint_effect[OF s, of tid st opts now] r r0(1)
  have cps: "checkpoint_rows db' = checkpoint_rows db @ [?new]"
    and row: "sessionRow db' sid = Some ?r1"
    by auto
  let ?old = "sort_key cp_timestamp (filter (\<lambda>c. cp_session_id c = sid) (checkpoint_rows db))"
  let ?all = "sort_key cp_timestamp (filter (\<lambda>c. cp_session_id c = sid) (checkpoint_rows db'))"
  from d r0(3) have "\<exists>cs. parseCheckpoints isUrl ?old = Inr cs" by auto
  then have old: "\<forall>cp \<in> set ?old. \<exists>c. parseCheckpoint isUrl cp = Inr c"
    by (simp only: parseCheckpoints_Inr_iff)
  have new: "\<exists>c. parseCheckpoint isUrl ?new = Inr c"
    using pl by (simp add: parseCheckpoint_def truthyString_def)
  have "set ?all = insert ?new (set ?old)" using cps by auto
  with old new have "\<forall>cp \<in> set ?all. \<exists>c. parseCheckpoint isUrl cp = Inr c" by simp
  then obtain cs where cs: "parseCheckpoints isUrl ?all = Inr cs"
    using parseCheckpoints_Inr_iff[of isUrl ?all] by blast
  have rid: "row_id ?r1 = sid" using r0(3) by simp
  from d have ok: "row_project ?r1 \<noteq> []" "phaseOk (row_phase ?r1)" by simp_all
  have "\<exists>s'. rowToSession isUrl db' ?r1 = Inr s'
           \<and> completedTasks s' = (if st = Completed then completedTasks s @ [tid]
                                    else completedTasks s)
           \<and> pendingTasks s' = pendingTasks s \<and> currentTask s' = None"
    using cs ok d r0(3) by (simp add: rowToSession_def)
  then obtain s' where s': "rowToSession isUrl db' ?r1 = Inr s'"
    "completedTasks s' = (if st = Completed then completedTasks s @ [tid] else completedTasks s)"
    "pendingTasks s' = pendingTasks s" "currentTask s' = None"
    by blast
  from requireSession_InrI[OF row s'(1)] s s'(2-4) show ?thesis by blast
qed

lemma resumeTaskBody_Inr_session:
  assumes "resumeTaskBody isUrl a sid task db = (Inr u, db')"
  shows "\<exists>s s'. requireSession isUrl db sid = Inr s \<and> requireSession isUrl db' sid = Inr s'
           \<and> completedTasks s' = completedTasks s @ [task_id task]
           \<and> pendingTasks s' = filter (\<lambda>x. x \<noteq> task_id task) (pendingTasks s)
           \<and> currentTask s' = None"
proof -
  from assms have "\<exists>wt br du dba dbb dbc.
      startTask isUrl db sid (task_id task) = Inr dba
    \<and> registerWorktree isUrl dba sid (task_id task) wt = Inr dbb
    \<and> registerBranch isUrl dbb sid (task_id task) br = Inr dbc
    \<and> saveCheckpoint isUrl dbc sid (task_id task) Completed
               (noOptions\<lparr>opt_duration := Some du\<rparr>) (checkpointTime a)
             = Inr db'"
    unfolding resumeTaskBody_def
    by (auto simp: andThen_Inr_iff external_Inr_iff storeOp_Inr_iff split: prod.splits if_splits)
       blast+
  then obtain wt br du dba dbb dbc where
    st: "startTask isUrl db sid (task_id task) = Inr dba"
    and rw: "registerWorktree isUrl dba sid (task_id task) wt = Inr dbb"
    and rb: "registerBranch isUrl dbb sid (task_id task) br = Inr dbc"
    and sc: "saveCheckpoint isUrl dbc sid (task_id task) Completed
               (noOptions\<lparr>opt_duration := Some du\<rparr>) (checkpointTime a)
             = Inr db'"
    by blast
  from startTask_Inr[OF st] obtain s where
    s: "requireSession isUrl db sid = Inr s"
    and sa: "requireSession isUrl dba sid
               = Inr (s\<lparr>currentTask := Some (task_id task),
                        pendingTasks := filter (\<lambda>t. t \<noteq> task_id task) (pendingTasks s)\<rparr>)"
    by blast
  from registerWorktree_Inr[OF rw] sa obtain sb where
    sb: "requireSession isUrl dbb sid = Inr sb"
      "completedTasks sb = completedTasks s"
      "pendingTasks sb = filter (\<lambda>t. t \<noteq> task_id task) (pendingTasks s)"
    by auto
  from registerBranch_Inr[OF rb] sb obtain sc' where
    sc': "requireSession isUrl dbc sid = Inr sc'"
      "completedTasks sc' = completedTasks s"
      "pendingTasks sc' = filter (\<lambda>t. t \<noteq> task_id task) (pendingTasks s)"
    by auto
  have "opt_prLink (noOptions\<lparr>opt_duration := Some du\<rparr>) = None"
    by (simp add: noOptions_def)
  from saveCheckpoint_Inr[OF sc this] sc' obtain s' where
    "requireSession isUrl db' sid = Inr s'"
    "completedTasks s' = completedTasks s @ [task_id task]"
    "pendingTasks s' = filter (\<lambda>t. t \<noteq> task_id task) (pendingTasks s)"
    "currentTask s' = None"
    by auto
  with s show ?thesis by blast
qed

lemma resumeExecuteTask_Inr:
  assumes "resumeExecuteTask isUrl a sid task db = (Inr u, db')"
  shows "resumeTaskBody isUrl a sid task db = (Inr (), db')"
  using assms executeTaskCatch_not_Inr
  by (auto simp: resumeExecuteTask_def split: prod.splits sum.splits)

lemma resumeExecuteTasks_Inr:
  "resumeExecuteTasks isUrl attempt sid ts db = (Inr u, db') \<Longrightarrow>
   requireSession isUrl db sid = Inr s \<Longrightarrow>
   \<exists>s'. requireSession isUrl db' sid = Inr s'
      \<and> completedTasks s' = completedTasks s @ map task_id ts
      \<and> pendingTasks s' = filter (\<lambda>x. x \<notin> task_id ` set ts) (pendingTasks s)
      \<and> (ts \<noteq> [] \<longrightarrow> currentTask s' = None)"
proof (induction ts arbitrary: db s)
  case Nil
  then show ?case by simp
next
  case (Cons task rest)
  from Cons.prems(1) obtain v db1 where
    one: "resumeExecuteTask isUrl (attempt (task_id task)) sid task db = (Inr v, db1)"
    and more: "resumeExecuteTasks isUrl attempt sid rest db1 = (Inr u, db')"
    by (auto split: prod.splits sum.splits)
  from resumeTaskBody_Inr_session[OF resumeExecuteTask_Inr[OF one]] Cons.prems(2)
  obtain s1 where s1: "requireSession isUrl db1 sid = Inr s1"
    "completedTasks s1 = completedTasks s @ [task_id task]"
    "pendingTasks s1 = filter (\<lambda>x. x \<noteq> task_id task) (pendingTasks s)"
    "currentTask s1 = None"
    by auto
  from Cons.IH[OF more s1(1)] obtain s' where s': "requireSession isUrl db' sid = Inr s'"
    "completedTasks s' = completedTasks s1 @ map task_id rest"
    "pendingTasks s' = filter (\<lambda>x. x \<notin> task_id ` set rest) (pendingTasks s1)"
    "rest \<noteq> [] \<longrightarrow> currentTask s' = None"
    by blast
  have cur: "currentTask s' = None"
  proof (cases "rest = []")
    case True
    with more s1(1) s'(1) have "s' = s1" by simp
    with s1(4) show ?thesis by simp
  next
    case False
    with s'(4) show ?thesis by simp
  qed
  have "filter (\<lambda>x. x \<notin> task_id ` set rest) (filter (\<lambda>x. x \<noteq> task_id task) (pendingTasks s))
        = filter (\<lambda>x. x \<notin> task_id ` set (task # rest)) (pendingTasks s)"
    by (induction "pendingTasks s") auto
  with s' s1 cur show ?case by auto
qed

lemma loadTask_id: "loadTask specs t = Some task \<Longrightarrow> task_id task = t"
  by (auto simp: loadTask_def loadTaskFromDir_def minimalTask_def
           split: option.splits if_splits)

text \<open>
  Claim C6. For a session that can be read and whose \<open>currentTask\<close> is set to \<open>t\<close>, the
  resume command (in its default, sequential mode) puts \<open>t\<close> at the front of
  \<open>pendingTasks\<close>, sets \<open>currentTask\<close> to \<open>null\<close> and writes the session; reading the
  session back from the store returns exactly that state, and the tasks are loaded and
  run from it. When the task files of \<open>t\<close> can be loaded and the run ends without an
  error, the session read from the store at the end has \<open>t\<close> in \<open>completedTasks\<close>, not
  in \<open>pendingTasks\<close>, and no current task.
\<close>

theorem resume_requeues_interrupted_task:
  assumes g: "getSession isUrl db sid = Inr (Some s)"
    and c: "currentTask s = Some t"
    and ne: "t \<noteq> []"
  shows "requeueInterrupted db s =
           (s\<lparr>pendingTasks := t # pendingTasks s, currentTask := None\<rparr>,
            updateSession db (s\<lparr>pendingTasks := t # pendingTasks s, currentTask := None\<rparr>))
       \<and> getSession isUrl (snd (requeueInterrupted db s)) sid
           = Inr (Some (s\<lparr>pendingTasks := t # pendingTasks s, currentTask := None\<rparr>))
       \<and> resumeCommand isUrl specs engineAvailable attempt sid db =
           (if loadRemainingTasks specs (t # pendingTasks s) = []
            then (NoTasksFound, snd (requeueInterrupted db s))
            else if \<not> engineAvailable then (EngineUnavailable, snd (requeueInterrupted db s))
            else (case resumeExecute isUrl attempt sid
                         (loadRemainingTasks specs (t # pendingTasks s))
                         (snd (requeueInterrupted db s)) of
                    (r, db2) \<Rightarrow> (Ended r, db2)))
       \<and> (\<forall>task db2.
             loadTask specs t = Some task
           \<and> resumeCommand isUrl specs engineAvailable attempt sid db = (Ended (Inr ()), db2)
           \<longrightarrow> (\<exists>s2. getSession isUrl db2 sid = Inr (Some s2)
                   \<and> t \<in> set (completedTasks s2)
                   \<and> t \<notin> set (pendingTasks s2)
                   \<and> currentTask s2 = None))"
proof -
  let ?s' = "s\<lparr>pendingTasks := t # pendingTasks s, currentTask := None\<rparr>"
  let ?db1 = "updateSession db ?s'"
  let ?ts = "loadRemainingTasks specs (t # pendingTasks s)"
  from c ne have tr: "truthyString (currentTask s) = Some t" by (simp add: truthyString_def)
  then have rq: "requeueInterrupted db s = (?s', ?db1)"
    by (simp add: requeueInterrupted_def Let_def)
  from g have rs: "requireSession isUrl db sid = Inr s" by (simp add: requireSession_Inr_iff)
  have rs1: "requireSession isUrl ?db1 sid = Inr ?s'"
    by (rule requireSession_updateSession[OF rs]) simp_all
  then have g1: "getSession isUrl (snd (requeueInterrupted db s)) sid = Inr (Some ?s')"
    using rq by (simp add: requireSession_Inr_iff)
  have cmd: "resumeCommand isUrl specs engineAvailable attempt sid db =
           (if ?ts = [] then (NoTasksFound, snd (requeueInterrupted db s))
            else if \<not> engineAvailable then (EngineUnavailable, snd (requeueInterrupted db s))
            else (case resumeExecute isUrl attempt sid ?ts (snd (requeueInterrupted db s)) of
                    (r, db2) \<Rightarrow> (Ended r, db2)))"
    using g tr rq by (simp add: resumeCommand_def Let_def)
  have fin: "\<exists>s2. getSession isUrl db2 sid = Inr (Some s2)
                   \<and> t \<in> set (completedTasks s2)
                   \<and> t \<notin> set (pendingTasks s2)
                   \<and> currentTask s2 = None"
    if lt: "loadTask specs t = Some task"
      and run: "resumeCommand isUrl specs engineAvailable attempt sid db = (Ended (Inr ()), db2)"
    for task db2
  proof -
    from lt have tid: "task_id task = t" by (rule loadTask_id)
    from lt have mem: "task \<in> set ?ts"
      by (simp add: loadRemainingTasks_def List.map_filter_simps)
    then have nonempty: "?ts \<noteq> []" by auto
    from run cmd nonempty rq have ex: "resumeExecute isUrl attempt sid ?ts ?db1 = (Inr (), db2)"
      by (auto split: if_splits prod.splits)
    then obtain waves where w: "buildExecutionWaves ?ts = Inr waves"
      and ets: "resumeExecuteTasks isUrl attempt sid (concat waves) ?db1 = (Inr (), db2)"
      by (auto simp: resumeExecute_def split: sum.splits)
    from buildExecutionWaves_Inr[OF w] have "mset (concat waves) = mset ?ts" by simp
    then have "set (concat waves) = set ?ts" by (rule mset_eq_setD)
    with mem have tw: "task \<in> set (concat waves)" by simp
    then have cne: "concat waves \<noteq> []" by (cases "concat waves") simp_all
    from resumeExecuteTasks_Inr[OF ets rs1] obtain s2 where
      s2: "requireSession isUrl db2 sid = Inr s2"
        "completedTasks s2 = completedTasks ?s' @ map task_id (concat waves)"
        "pendingTasks s2 = filter (\<lambda>x. x \<notin> task_id ` set (concat waves)) (pendingTasks ?s')"
        "concat waves \<noteq> [] \<longrightarrow> currentTask s2 = None"
      by blast
    from tw tid have tin: "t \<in> task_id ` set (concat waves)" by blast
    from s2(2) tin have a: "t \<in> set (completedTasks s2)" by simp
    from s2(3) tin have b: "t \<notin> set (pendingTasks s2)" by simp
    from s2(4) cne have d: "currentTask s2 = None" by simp
    from s2(1) have "getSession isUrl db2 sid = Inr (Some s2)"
      by (simp add: requireSession_Inr_iff)
    with a b d show ?thesis by blast
  qed
  from rq g1 cmd fin show ?thesis by blast
qed

lemma crashed_session: "getSession isUrl crashedDb ''s1'' = Inr (Some crashedSession)"
  by (simp add: getSession_def sessionRow_def rowToSession_def crashedDb_def crashedRow_def
        crashedSession_def demoRow_def demoSession_def phaseOk_def isDigit_def)

lemma buildTask_id: "task_id buildTask = ''T00-002''"
  by (simp add: buildTask_def)

lemma crashed_tasks: "loadRemainingTasks demoSpecs [''T00-002''] = [buildTask]"
  by code_simp

lemma crashed_waves: "buildExecutionWaves [buildTask] = Inr [[buildTask]]"
  by (simp add: buildTask_def sched_defs)

lemma crashed_run:
  "fst (resumeCommand (\<lambda>u. True) demoSpecs True (\<lambda>t. demoAttempt okResult 9) ''s1'' crashedDb)
   = Ended (Inr ())"
  by (simp add: resumeCommand_def requeueInterrupted_def resumeExecute_def resumeExecuteTask_def
        resumeTaskBody_def crashed_tasks crashed_waves buildTask_id store_defs exec_defs crashedDb_def
        crashedRow_def demoRow_def demoAttempt_def okResult_def Let_def)

lemma crashed_run2:
  "map_option (\<lambda>r. (completed_tasks r, pending_tasks r, current_task r))
     (sessionRow (snd (resumeCommand (\<lambda>u. True) demoSpecs True (\<lambda>t. demoAttempt okResult 9) ''s1'' crashedDb)) ''s1'')
   = Some ([''T00-001'', ''T00-002''], [], None)"
  by (simp add: resumeCommand_def requeueInterrupted_def resumeExecute_def resumeExecuteTask_def
        resumeTaskBody_def crashed_tasks crashed_waves buildTask_id store_defs exec_defs crashedDb_def
        crashedRow_def demoRow_def demoAttempt_def okResult_def Let_def)

theorem resume_requeues_interrupted_task_witness:
  "getSession (\<lambda>u. True) crashedDb ''s1'' = Inr (Some crashedSession)
   \<and> currentTask crashedSession = Some ''T00-002''
   \<and> completedTasks crashedSession = [''T00-001'']
   \<and> pendingTasks (fst (requeueInterrupted crashedDb crashedSession)) = [''T00-002'']
   \<and> currentTask (fst (requeueInterrupted crashedDb crashedSession)) = None
   \<and> getSession (\<lambda>u. True) (snd (requeueInterrupted crashedDb crashedSession)) ''s1''
       = Inr (Some (fst (requeueInterrupted crashedDb crashedSession)))
   \<and> fst (resumeCommand (\<lambda>u. True) demoSpecs True (\<lambda>t. demoAttempt okResult 9) ''s1'' crashedDb)
       = Ended (Inr ())
   \<and> (\<exists>s2. getSession (\<lambda>u. True)
               (snd (resumeCommand (\<lambda>u. True) demoSpecs True (\<lambda>t. demoAttempt okResult 9)
                       ''s1'' crashedDb)) ''s1'' = Inr (Some s2)
           \<and> ''T00-002'' \<in> set (completedTasks s2)
           \<and> ''T00-002'' \<notin> set (pendingTasks s2)
           \<and> currentTask s2 = None)
   \<and> map_option (\<lambda>r. (completed_tasks r, pending_tasks r, current_task r))
        (sessionRow (snd (resumeCommand (\<lambda>u. True) demoSpecs True
                            (\<lambda>t. demoAttempt okResult 9) ''s1'' crashedDb)) ''s1'')
       = Some ([''T00-001'', ''T00-002''], [], None)"
proof -
  let ?run = "resumeCommand (\<lambda>u. True) demoSpecs True (\<lambda>t. demoAttempt okResult 9) ''s1''
                crashedDb"
  have c: "currentTask crashedSession = Some ''T00-002''"
    and d: "completedTasks crashedSession = [''T00-001'']"
    and p: "pendingTasks crashedSession = []"
    by (simp_all add: crashedSession_def)
  have ne: "''T00-002'' \<noteq> []" by simp
  note t = resume_requeues_interrupted_task[where isUrl="\<lambda>u. True" and specs=demoSpecs
      and engineAvailable=True and attempt="\<lambda>t. demoAttempt okResult 9",
      OF crashed_session c ne]
  from t have rq: "requeueInterrupted crashedDb crashedSession =
           (crashedSession\<lparr>pendingTasks := ''T00-002'' # pendingTasks crashedSession,
                           currentTask := None\<rparr>,
            updateSession crashedDb
              (crashedSession\<lparr>pendingTasks := ''T00-002'' # pendingTasks crashedSession,
                              currentTask := None\<rparr>))"
    by blast
  from t have g1: "getSession (\<lambda>u. True) (snd (requeueInterrupted crashedDb crashedSession)) ''s1''
       = Inr (Some (crashedSession\<lparr>pendingTasks := ''T00-002'' # pendingTasks crashedSession,
                                  currentTask := None\<rparr>))"
    by blast
  from crashed_tasks have "loadTask demoSpecs ''T00-002'' = Some buildTask"
    by (simp add: loadRemainingTasks_def List.map_filter_simps split: option.splits)
  moreover have "?run = (Ended (Inr ()), snd ?run)"
    using crashed_run by (cases ?run) simp
  ultimately have fin: "\<exists>s2. getSession (\<lambda>u. True) (snd ?run) ''s1'' = Inr (Some s2)
           \<and> ''T00-002'' \<in> set (completedTasks s2)
           \<and> ''T00-002'' \<notin> set (pendingTasks s2)
           \<and> currentTask s2 = None"
    using t by blast
  from rq p have e: "pendingTasks (fst (requeueInterrupted crashedDb crashedSession)) = [''T00-002'']"
    "currentTask (fst (requeueInterrupted crashedDb crashedSession)) = None"
    by simp_all
  from g1 rq have g2: "getSession (\<lambda>u. True) (snd (requeueInterrupted crashedDb crashedSession)) ''s1''
       = Inr (Some (fst (requeueInterrupted crashedDb crashedSession)))"
    by simp
  from crashed_session c d e g2 crashed_run fin crashed_run2 show ?thesis by blast
qed

end
